theory Spec2Isabelle
  imports Complex_Main "HOL-Library.Word" "HOL-Library.Multiset"
begin

unbundle bit_operations_syntax

section \<open>The sparse matrix of src/cpu/matrix/matrix_sparse.cpp\<close>

text \<open>
  The element type \<open>T\<close> (float or double in the source) is read in exact arithmetic as
  \<open>real\<close>. Sizes and indices (\<open>POGS_INT\<close>, \<open>size_t\<close>) are \<open>nat\<close>: a well-formed
  matrix has no negative dimension, offset or index. The three owned buffers
  \<open>_data\<close>, \<open>_ind\<close>, \<open>_ptr\<close> are lists; a pointer into a buffer (\<open>data + nnz\<close>,
  \<open>ptr + m + 1\<close>) is the buffer together with an offset. Reading or writing outside a
  buffer is undefined behaviour in the source; the theorems below exclude it by
  well-formedness hypotheses.
\<close>

subsection \<open>Outcomes\<close>

text \<open>
  \<open>AssertFailed\<close>: an assertion fired and the process was terminated.
  \<open>NonFinite\<close>: a division by zero or the square root of a negative number; IEEE
  arithmetic yields an infinity or a NaN there and the source keeps computing with it,
  but exact real arithmetic has no value for it.
\<close>

datatype failure = AssertFailed | NonFinite

datatype build = Debug | Release

text \<open>
  Modelled from the spec: the macros \<open>ASSERT\<close> and \<open>DEBUG_ASSERT\<close> of util.h, which is
  not among the sources. Section 7 of the spec: a failed assertion is fatal in debug
  builds and the call is rejected outright in release builds; usage-sequence checks
  are written \<open>DEBUG_ASSERT\<close> followed by an explicit status return, so
  \<open>DEBUG_ASSERT\<close> is active in debug builds only.
\<close>

definition ASSERT :: "bool \<Rightarrow> (failure + 'a) \<Rightarrow> failure + 'a" where
  "ASSERT statement rest = (if statement then rest else Inl AssertFailed)"

definition DEBUG_ASSERT :: "build \<Rightarrow> bool \<Rightarrow> (failure + 'a) \<Rightarrow> failure + 'a" where
  "DEBUG_ASSERT b statement rest = (if b = Debug then ASSERT statement rest else rest)"

definition fdiv :: "real \<Rightarrow> real \<Rightarrow> failure + real" where
  "fdiv a b = (if b = 0 then Inl NonFinite else Inr (a / b))"

subsection \<open>Data\<close>

datatype Ord = ROW | COL

text \<open>
  Modelled from the spec: the enumerations \<open>NormTypes\<close> (equil_helper.h) and the CBLAS
  tags (gsl headers), which are not among the sources. The spec names the 1-norm, the
  2-norm and the Frobenius norm.
\<close>

datatype NormTypes = kNorm1 | kNorm2 | kNormFro

datatype CBLAS_TRANSPOSE = CblasNoTrans | CblasTrans

datatype CBLAS_ORDER = CblasRowMajor | CblasColMajor

definition kNormEquilibrate :: NormTypes where
  "kNormEquilibrate = kNorm2"

definition kNormNormalize :: NormTypes where
  "kNormNormalize = kNormFro"

record CpuData =
  orig_data :: "real list"
  orig_ptr :: "nat list"
  orig_ind :: "nat list"

record MatrixSparse =
  Rows :: nat
  Cols :: nat
  done_init :: bool
  info :: CpuData
  Data :: "real list"
  Ptr :: "nat list"
  Ind :: "nat list"
  Nnz :: nat
  M_ord :: Ord

definition OpToCblasOp :: "char \<Rightarrow> failure + CBLAS_TRANSPOSE" where
  "OpToCblasOp tr =
     ASSERT (tr = CHR ''n'' \<or> tr = CHR ''N'' \<or> tr = CHR ''t'' \<or> tr = CHR ''T'')
       (Inr (if tr = CHR ''n'' \<or> tr = CHR ''N'' then CblasNoTrans else CblasTrans))"

text \<open>The constructor: the null pointers \<open>_data(0)\<close>, \<open>_ptr(0)\<close>, \<open>_ind(0)\<close> are empty buffers.\<close>

definition MatrixSparse_new ::
  "char \<Rightarrow> nat \<Rightarrow> nat \<Rightarrow> nat \<Rightarrow> real list \<Rightarrow> nat list \<Rightarrow> nat list \<Rightarrow> failure + MatrixSparse" where
  "MatrixSparse_new ord m n nnz data ptr ind =
     ASSERT (ord = CHR ''r'' \<or> ord = CHR ''R'' \<or> ord = CHR ''c'' \<or> ord = CHR ''C'')
       (Inr \<lparr>Rows = m, Cols = n, done_init = False,
             info = \<lparr>orig_data = data, orig_ptr = ptr, orig_ind = ind\<rparr>,
             Data = [], Ptr = [], Ind = [], Nnz = nnz,
             M_ord = (if ord = CHR ''r'' \<or> ord = CHR ''R'' then ROW else COL)\<rparr>)"

subsection \<open>Building the dual storage\<close>

text \<open>
  Modelled from the spec: \<open>gsl::spmat_memcpy\<close> of the gsl headers, which are not among
  the sources. Section 4.1 of the spec: the supplied orientation is copied directly
  into the matching half; the opposite half is filled by a counting-sort conversion
  (per-bucket counts, prefix sum into offsets, scatter of values and indices). The
  supplied half is the one at the start of the buffers, as \<open>MultDiag\<close> reads them.
\<close>

definition count_buckets :: "nat list \<Rightarrow> nat \<Rightarrow> nat \<Rightarrow> nat list" where
  "count_buckets ind nnz s =
     fold (\<lambda>k cnt. cnt[ind ! k := cnt ! (ind ! k) + 1]) [0..<nnz] (replicate s 0)"

fun prefix_sum :: "nat \<Rightarrow> nat list \<Rightarrow> nat list" where
  "prefix_sum a [] = [a]"
| "prefix_sum a (c # cs) = a # prefix_sum (a + c) cs"

definition scatter_step ::
  "real list \<Rightarrow> nat list \<Rightarrow> nat \<Rightarrow> nat \<Rightarrow> nat list \<times> real list \<times> nat list
     \<Rightarrow> nat list \<times> real list \<times> nat list" where
  "scatter_step val ind t k = (\<lambda>(nxt, oval, oind).
     (nxt[ind ! k := nxt ! (ind ! k) + 1],
      oval[nxt ! (ind ! k) := val ! k],
      oind[nxt ! (ind ! k) := t]))"

definition scatter ::
  "nat \<Rightarrow> real list \<Rightarrow> nat list \<Rightarrow> nat list \<Rightarrow> nat list \<times> real list \<times> nat list
     \<Rightarrow> nat list \<times> real list \<times> nat list" where
  "scatter p val ind ptr =
     fold (\<lambda>t. fold (scatter_step val ind t) [ptr ! t..<ptr ! (t + 1)]) [0..<p]"

definition convert_half ::
  "nat \<Rightarrow> nat \<Rightarrow> nat \<Rightarrow> real list \<Rightarrow> nat list \<Rightarrow> nat list \<Rightarrow> real list \<times> nat list \<times> nat list" where
  "convert_half p s nnz val ind ptr =
     (let off = prefix_sum 0 (count_buckets ind nnz s);
          (nxt, oval, oind) = scatter p val ind ptr (off, replicate nnz 0, replicate nnz 0)
      in (oval, oind, off))"

definition spmat_memcpy ::
  "CBLAS_ORDER \<Rightarrow> nat \<Rightarrow> nat \<Rightarrow> nat \<Rightarrow> real list \<Rightarrow> nat list \<Rightarrow> nat list
     \<Rightarrow> real list \<times> nat list \<times> nat list" where
  "spmat_memcpy order m n nnz val ind ptr =
     (let p = (if order = CblasRowMajor then m else n);
          s = (if order = CblasRowMajor then n else m);
          val1 = take nnz val;
          ind1 = take nnz ind;
          ptr1 = take (p + 1) ptr;
          (val2, ind2, ptr2) = convert_half p s nnz val1 ind1 ptr1
      in (val1 @ val2, ind1 @ ind2, ptr1 @ ptr2))"

definition Init :: "build \<Rightarrow> MatrixSparse \<Rightarrow> failure + (int \<times> MatrixSparse)" where
  "Init b A =
     DEBUG_ASSERT b (\<not> done_init A)
       (if done_init A then Inr (1, A)
        else
          let (val, ind, ptr) =
                (if M_ord A = ROW
                 then spmat_memcpy CblasRowMajor (Rows A) (Cols A) (Nnz A)
                        (orig_data (info A)) (orig_ind (info A)) (orig_ptr (info A))
                 else spmat_memcpy CblasColMajor (Rows A) (Cols A) (Nnz A)
                        (orig_data (info A)) (orig_ind (info A)) (orig_ptr (info A)))
          in Inr (0, A\<lparr>done_init := True, Data := val, Ind := ind, Ptr := ptr\<rparr>))"

subsection \<open>Matrix-vector multiply\<close>

text \<open>
  Modelled from the spec: \<open>gsl::spblas_gemv\<close> of the gsl headers, which are not among
  the sources. Sections 2 and 4.2 of the spec: \<open>y := alpha * op(A) * x + beta * y\<close>,
  computed by walking the compressed half whose buckets are the rows of \<open>op(A)\<close>
  (an untransposed multiply on a row-ordered matrix walks the row-compressed half, a
  transposed one the column-compressed half).
\<close>

definition dot_bucket ::
  "real list \<Rightarrow> nat \<Rightarrow> nat list \<Rightarrow> nat \<Rightarrow> nat list \<Rightarrow> nat \<Rightarrow> real list \<Rightarrow> nat \<Rightarrow> real" where
  "dot_bucket val voff ind ioff ptr poff x t =
     fold (\<lambda>j tmp. tmp + val ! (voff + j) * x ! (ind ! (ioff + j)))
       [ptr ! (poff + t)..<ptr ! (poff + t + 1)] 0"

definition gemv_half ::
  "real list \<Rightarrow> nat \<Rightarrow> nat list \<Rightarrow> nat \<Rightarrow> nat list \<Rightarrow> nat \<Rightarrow> nat
     \<Rightarrow> real \<Rightarrow> real list \<Rightarrow> real \<Rightarrow> real list \<Rightarrow> real list" where
  "gemv_half val voff ind ioff ptr poff sz alpha x beta y =
     map (\<lambda>t. alpha * dot_bucket val voff ind ioff ptr poff x t + beta * y ! t) [0..<sz]"

definition spblas_gemv ::
  "CBLAS_ORDER \<Rightarrow> CBLAS_TRANSPOSE \<Rightarrow> real
     \<Rightarrow> real list \<times> nat list \<times> nat list \<times> nat \<times> nat \<times> nat
     \<Rightarrow> real list \<Rightarrow> real \<Rightarrow> real list \<Rightarrow> real list" where
  "spblas_gemv order tr alpha A x beta y =
     (case A of (val, ind, ptr, m, n, nnz) \<Rightarrow>
        let p = (if order = CblasRowMajor then m else n);
            s = (if order = CblasRowMajor then n else m)
        in if (order = CblasRowMajor) = (tr = CblasNoTrans)
           then gemv_half val 0 ind 0 ptr 0 p alpha x beta y
           else gemv_half val nnz ind nnz ptr (p + 1) s alpha x beta y)"

text \<open>
  \<open>Mul\<close> returns the status and the buffer \<open>y\<close>. The views \<open>x_vec\<close>, \<open>y_vec\<close> cover the
  first \<open>n\<close> and \<open>m\<close> entries of the buffers (swapped when the flag \<open>trans\<close>, here \<open>tr\<close>, is not \<open>n\<close>/\<open>N\<close>).
\<close>

definition Mul ::
  "build \<Rightarrow> MatrixSparse \<Rightarrow> char \<Rightarrow> real \<Rightarrow> real list \<Rightarrow> real \<Rightarrow> real list
     \<Rightarrow> failure + (int \<times> real list)" where
  "Mul b A tr alpha x beta y =
     DEBUG_ASSERT b (done_init A)
       (if \<not> done_init A then Inr (1, y)
        else
          let (xlen, ylen) =
                (if tr = CHR ''n'' \<or> tr = CHR ''N''
                 then (Cols A, Rows A) else (Rows A, Cols A));
              x_vec = take xlen x;
              y_vec = take ylen y
          in if M_ord A = ROW
             then (case OpToCblasOp tr of
                     Inl err \<Rightarrow> Inl err
                   | Inr op \<Rightarrow>
                       Inr (0, spblas_gemv CblasRowMajor op alpha
                                 (Data A, Ind A, Ptr A, Rows A, Cols A, Nnz A) x_vec beta y_vec
                               @ drop ylen y))
             else (case OpToCblasOp tr of
                     Inl err \<Rightarrow> Inl err
                   | Inr op \<Rightarrow>
                       Inr (0, spblas_gemv CblasColMajor op alpha
                                 (Data A, Ind A, Ptr A, Rows A, Cols A, Nnz A) x_vec beta y_vec
                               @ drop ylen y)))"

subsection \<open>The sign codec\<close>

text \<open>
  Modelled from the spec: the functors \<open>SquareF\<close>, \<open>AbsF\<close>, \<open>SqrtF\<close>, \<open>IdentityF\<close> and
  the routines \<open>SetSign\<close>, \<open>SetSignSingle\<close>, \<open>UnSetSign\<close>, \<open>UnSetSignSingle\<close> of
  equil_helper.h, which is not among the sources. Section 4.3 of the spec: for each
  entry the sign is recorded as one bit (0 nonnegative, 1 negative) of a packed side
  buffer and the entry is overwritten with the transform of its magnitude; restoring
  applies the second transform and puts the sign back. The bulk routines handle one
  byte, that is 8 entries, per step; the single routines handle the tail entry by entry
  with one more byte. Entry \<open>8 * t + i\<close> owns bit \<open>i\<close> of byte \<open>t\<close>.
\<close>

datatype Functor = SquareF | AbsF | SqrtF | IdentityF

fun apply_F :: "Functor \<Rightarrow> real \<Rightarrow> real" where
  "apply_F SquareF x = x * x"
| "apply_F AbsF x = \<bar>x\<bar>"
| "apply_F SqrtF x = sqrt x"
| "apply_F IdentityF x = x"

text \<open>The square root of a negative number is a NaN in the source.\<close>

fun defined_F :: "Functor \<Rightarrow> real \<Rightarrow> bool" where
  "defined_F SqrtF x = (0 \<le> x)"
| "defined_F f x = True"

definition SetSign ::
  "real list \<Rightarrow> 8 word list \<Rightarrow> nat \<Rightarrow> Functor \<Rightarrow> real list \<times> 8 word list" where
  "SetSign x sign sz f =
     fold (\<lambda>t (x, sign).
             fold (\<lambda>i (x, sign).
                     (x[8 * t + i := apply_F f \<bar>x ! (8 * t + i)\<bar>],
                      sign[t := sign ! t OR push_bit i (of_bool (x ! (8 * t + i) < 0))]))
               [0..<8] (x, sign[t := 0]))
       [0..<sz] (x, sign)"

definition SetSignSingle ::
  "real list \<Rightarrow> nat \<Rightarrow> 8 word list \<Rightarrow> nat \<Rightarrow> nat \<Rightarrow> Functor \<Rightarrow> real list \<times> 8 word list" where
  "SetSignSingle x xoff sign soff bits f =
     fold (\<lambda>i (x, sign).
             (x[xoff + i := apply_F f \<bar>x ! (xoff + i)\<bar>],
              sign[soff := sign ! soff OR push_bit i (of_bool (x ! (xoff + i) < 0))]))
       [0..<bits] (x, sign[soff := 0])"

definition UnSetSign ::
  "real list \<Rightarrow> 8 word list \<Rightarrow> nat \<Rightarrow> Functor \<Rightarrow> failure + real list" where
  "UnSetSign x sign sz f =
     (if list_all (\<lambda>k. defined_F f (x ! k)) [0..<8 * sz]
      then Inr (fold (\<lambda>t.
                  fold (\<lambda>i x. x[8 * t + i :=
                                  (if bit (sign ! t) i then - apply_F f (x ! (8 * t + i))
                                   else apply_F f (x ! (8 * t + i)))])
                    [0..<8])
                 [0..<sz] x)
      else Inl NonFinite)"

definition UnSetSignSingle ::
  "real list \<Rightarrow> nat \<Rightarrow> 8 word list \<Rightarrow> nat \<Rightarrow> nat \<Rightarrow> Functor \<Rightarrow> failure + real list" where
  "UnSetSignSingle x xoff sign soff bits f =
     (if list_all (\<lambda>i. defined_F f (x ! (xoff + i))) [0..<bits]
      then Inr (fold (\<lambda>i x. x[xoff + i :=
                              (if bit (sign ! soff) i then - apply_F f (x ! (xoff + i))
                               else apply_F f (x ! (xoff + i)))])
                 [0..<bits] x)
      else Inl NonFinite)"

subsection \<open>Diagonal scaling\<close>

definition MultRow ::
  "real list \<Rightarrow> real list \<Rightarrow> real list \<Rightarrow> nat \<Rightarrow> nat list \<Rightarrow> nat \<Rightarrow> nat list \<Rightarrow> nat \<Rightarrow> nat
     \<Rightarrow> real list" where
  "MultRow d e data doff row_ptr poff col_ind ioff sz =
     fold (\<lambda>t.
             fold (\<lambda>i data. data[doff + i := data ! (doff + i) * (d ! t * e ! (col_ind ! (ioff + i)))])
               [row_ptr ! (poff + t)..<row_ptr ! (poff + t + 1)])
       [0..<sz] data"

definition MultCol ::
  "real list \<Rightarrow> real list \<Rightarrow> real list \<Rightarrow> nat \<Rightarrow> nat list \<Rightarrow> nat \<Rightarrow> nat list \<Rightarrow> nat \<Rightarrow> nat
     \<Rightarrow> real list" where
  "MultCol d e data doff col_ptr poff row_ind ioff sz =
     fold (\<lambda>t.
             fold (\<lambda>i data. data[doff + i := data ! (doff + i) * (d ! (row_ind ! (ioff + i)) * e ! t)])
               [col_ptr ! (poff + t)..<col_ptr ! (poff + t + 1)])
       [0..<sz] data"

definition MultDiag ::
  "real list \<Rightarrow> real list \<Rightarrow> nat \<Rightarrow> nat \<Rightarrow> nat \<Rightarrow> Ord \<Rightarrow> real list \<Rightarrow> nat list \<Rightarrow> nat list
     \<Rightarrow> real list" where
  "MultDiag d e m n nnz ord data ind ptr =
     (if ord = ROW
      then MultCol d e (MultRow d e data 0 ptr 0 ind 0 m) nnz ptr (m + 1) ind nnz n
      else MultRow d e (MultCol d e data 0 ptr 0 ind 0 n) nnz ptr (n + 1) ind nnz m)"

subsection \<open>Norm estimate\<close>

text \<open>
  Modelled from the spec: \<open>gsl::blas_nrm2\<close> and \<open>gsl::vector_scale\<close> of the gsl headers,
  which are not among the sources: the 2-norm (square root of the sum of squares) of
  a vector, and the multiplication of every entry of a vector by a scalar.
  \<open>Norm2Est\<close> of equil_helper.h (the power-iteration estimate) is a parameter.
\<close>

definition blas_nrm2 :: "real list \<Rightarrow> real" where
  "blas_nrm2 a = sqrt (sum_list (map (\<lambda>v. v * v) a))"

definition vector_scale :: "real list \<Rightarrow> nat \<Rightarrow> real \<Rightarrow> real list" where
  "vector_scale a len c = map (\<lambda>v. v * c) (take len a) @ drop len a"

fun NormEst :: "(MatrixSparse \<Rightarrow> real) \<Rightarrow> NormTypes \<Rightarrow> MatrixSparse \<Rightarrow> failure + real" where
  "NormEst Norm2Est kNorm2 A = Inr (Norm2Est A)"
| "NormEst Norm2Est kNormFro A =
     fdiv (blas_nrm2 (take (Nnz A) (Data A))) (sqrt (real (min (Rows A) (Cols A))))"
| "NormEst Norm2Est kNorm1 A = ASSERT False (Inr 0)"

subsection \<open>Equilibration\<close>

text \<open>
  \<open>std::transform(d, d + len, d, f)\<close>, and the scalar \<open>1 / std::sqrt(normA)\<close>.
\<close>

definition transform_F :: "Functor \<Rightarrow> real list \<Rightarrow> nat \<Rightarrow> failure + real list" where
  "transform_F f d len =
     (if list_all (defined_F f) (take len d)
      then Inr (map (apply_F f) (take len d) @ drop len d)
      else Inl NonFinite)"

definition inv_sqrt :: "real \<Rightarrow> failure + real" where
  "inv_sqrt a = (if a < 0 then Inl NonFinite else fdiv 1 (sqrt a))"

text \<open>
  \<open>SinkhornKnopp\<close> of equil_helper.h is not among the sources and is a parameter: it
  reads the matrix and the two buffers and returns the buffers \<open>d\<close> and \<open>e\<close>
  (section 4.4 of the spec, step 2; the scaling is applied to the matrix in step 5).
  \<open>Equil\<close> returns the status, the matrix and the buffers \<open>d\<close> and \<open>e\<close>.
\<close>

definition Equil ::
  "build \<Rightarrow> (MatrixSparse \<Rightarrow> real list \<Rightarrow> real list \<Rightarrow> real list \<times> real list)
     \<Rightarrow> (MatrixSparse \<Rightarrow> real) \<Rightarrow> MatrixSparse \<Rightarrow> real list \<Rightarrow> real list
     \<Rightarrow> failure + (int \<times> MatrixSparse \<times> real list \<times> real list)" where
  "Equil b SinkhornKnopp Norm2Est A d e =
     DEBUG_ASSERT b (done_init A)
       (if \<not> done_init A then Inr (1, A, d, e)
        else
          let num_el = 2 * Nnz A;
              num_sign_bytes = (num_el + 7) div 8;
              sign = replicate num_sign_bytes 0;
              num_chars = num_el div 8;
              (x1, sign1) =
                (if kNormEquilibrate = kNorm2 \<or> kNormEquilibrate = kNormFro
                 then SetSign (Data A) sign num_chars SquareF
                 else SetSign (Data A) sign num_chars AbsF);
              (x2, sign2) =
                (if num_el > num_chars * 8
                 then (if kNormEquilibrate = kNorm2 \<or> kNormEquilibrate = kNormFro
                       then SetSignSingle x1 (num_chars * 8) sign1 num_chars
                              (num_el - num_chars * 8) SquareF
                       else SetSignSingle x1 (num_chars * 8) sign1 num_chars
                              (num_el - num_chars * 8) AbsF)
                 else (x1, sign1));
              (d1, e1) = SinkhornKnopp (A\<lparr>Data := x2\<rparr>) d e
          in case (if kNormEquilibrate = kNorm2 \<or> kNormEquilibrate = kNormFro
                   then UnSetSign x2 sign2 num_chars SqrtF
                   else UnSetSign x2 sign2 num_chars IdentityF) of
               Inl err \<Rightarrow> Inl err
             | Inr x3 \<Rightarrow>
            (case (if num_el > num_chars * 8
                   then (if kNormEquilibrate = kNorm2 \<or> kNormEquilibrate = kNormFro
                         then UnSetSignSingle x3 (num_chars * 8) sign2 num_chars
                                (num_el - num_chars * 8) SqrtF
                         else UnSetSignSingle x3 (num_chars * 8) sign2 num_chars
                                (num_el - num_chars * 8) IdentityF)
                   else Inr x3) of
               Inl err \<Rightarrow> Inl err
             | Inr x4 \<Rightarrow>
            (case (if kNormEquilibrate = kNorm2 \<or> kNormEquilibrate = kNormFro
                   then (case transform_F SqrtF d1 (Rows A) of
                           Inl err \<Rightarrow> Inl err
                         | Inr d2 \<Rightarrow>
                             (case transform_F SqrtF e1 (Cols A) of
                                Inl err \<Rightarrow> Inl err
                              | Inr e2 \<Rightarrow> Inr (d2, e2)))
                   else Inr (d1, e1)) of
               Inl err \<Rightarrow> Inl err
             | Inr (d2, e2) \<Rightarrow>
            (let x5 = MultDiag d2 e2 (Rows A) (Cols A) (Nnz A) (M_ord A) x4 (Ind A) (Ptr A)
             in case NormEst Norm2Est kNormNormalize (A\<lparr>Data := x5\<rparr>) of
                  Inl err \<Rightarrow> Inl err
                | Inr normA \<Rightarrow>
               (case fdiv 1 normA of
                  Inl err \<Rightarrow> Inl err
                | Inr c \<Rightarrow>
               (case inv_sqrt normA of
                  Inl err \<Rightarrow> Inl err
                | Inr c2 \<Rightarrow>
                    Inr (0, A\<lparr>Data := vector_scale x5 num_el c\<rparr>,
                         vector_scale d2 (Rows A) c2, vector_scale e2 (Cols A) c2)))))))"

text \<open>
  The pipeline of \<open>Equil\<close> as it runs when the equilibration norm is the 2-norm and the
  normalisation norm the Frobenius convention: square on extraction, square root on
  restoration, square root of \<open>d\<close> and \<open>e\<close>, and no other transform.
\<close>

definition Equil_2norm ::
  "build \<Rightarrow> (MatrixSparse \<Rightarrow> real list \<Rightarrow> real list \<Rightarrow> real list \<times> real list)
     \<Rightarrow> (MatrixSparse \<Rightarrow> real) \<Rightarrow> MatrixSparse \<Rightarrow> real list \<Rightarrow> real list
     \<Rightarrow> failure + (int \<times> MatrixSparse \<times> real list \<times> real list)" where
  "Equil_2norm b SinkhornKnopp Norm2Est A d e =
     DEBUG_ASSERT b (done_init A)
       (if \<not> done_init A then Inr (1, A, d, e)
        else
          let num_el = 2 * Nnz A;
              num_chars = num_el div 8;
              (x1, sign1) = SetSign (Data A) (replicate ((num_el + 7) div 8) 0) num_chars SquareF;
              (x2, sign2) =
                (if num_el > num_chars * 8
                 then SetSignSingle x1 (num_chars * 8) sign1 num_chars
                        (num_el - num_chars * 8) SquareF
                 else (x1, sign1));
              (d1, e1) = SinkhornKnopp (A\<lparr>Data := x2\<rparr>) d e
          in case UnSetSign x2 sign2 num_chars SqrtF of
               Inl err \<Rightarrow> Inl err
             | Inr x3 \<Rightarrow>
            (case (if num_el > num_chars * 8
                   then UnSetSignSingle x3 (num_chars * 8) sign2 num_chars
                          (num_el - num_chars * 8) SqrtF
                   else Inr x3) of
               Inl err \<Rightarrow> Inl err
             | Inr x4 \<Rightarrow>
            (case transform_F SqrtF d1 (Rows A) of
               Inl err \<Rightarrow> Inl err
             | Inr d2 \<Rightarrow>
            (case transform_F SqrtF e1 (Cols A) of
               Inl err \<Rightarrow> Inl err
             | Inr e2 \<Rightarrow>
            (let x5 = MultDiag d2 e2 (Rows A) (Cols A) (Nnz A) (M_ord A) x4 (Ind A) (Ptr A)
             in case fdiv (blas_nrm2 (take (Nnz A) x5)) (sqrt (real (min (Rows A) (Cols A)))) of
                  Inl err \<Rightarrow> Inl err
                | Inr normA \<Rightarrow>
               (case fdiv 1 normA of
                  Inl err \<Rightarrow> Inl err
                | Inr c \<Rightarrow>
               (case inv_sqrt normA of
                  Inl err \<Rightarrow> Inl err
                | Inr c2 \<Rightarrow>
                    Inr (0, A\<lparr>Data := vector_scale x5 num_el c\<rparr>,
                         vector_scale d2 (Rows A) c2, vector_scale e2 (Cols A) c2))))))))"

subsection \<open>The concrete scenario of the spec\<close>

text \<open>
  The 2 by 2 matrix with rows \<open>(4, 2)\<close> and \<open>(0, 3)\<close>, supplied row-compressed: as the
  constructor leaves it, and as \<open>Init\<close> leaves it.
\<close>

definition scenario_raw :: MatrixSparse where
  "scenario_raw =
     \<lparr>Rows = 2, Cols = 2, done_init = False,
      info = \<lparr>orig_data = [4, 2, 3], orig_ptr = [0, 2, 3], orig_ind = [0, 1, 1]\<rparr>,
      Data = [], Ptr = [], Ind = [], Nnz = 3, M_ord = ROW\<rparr>"

definition scenario_ready :: MatrixSparse where
  "scenario_ready =
     scenario_raw\<lparr>done_init := True, Data := [4, 2, 3, 4, 2, 3],
                  Ind := [0, 1, 1, 0, 0, 1], Ptr := [0, 2, 3, 0, 1, 3]\<rparr>"

subsection \<open>The codec on a whole array\<close>

text \<open>
  The two directions of the codec as \<open>Equil\<close> calls them (lines 162 to 188 and 193 to
  210), for a value array of any length in place of \<open>_data\<close>: the bulk routine on the
  \<open>num_el div 8\<close> full bytes, then the single routine on the tail when \<open>num_el\<close> is
  not a multiple of 8. The sign buffer has \<open>(num_el + 7) div 8\<close> bytes.
\<close>

definition ExtractAndTransform :: "real list \<Rightarrow> Functor \<Rightarrow> real list \<times> 8 word list" where
  "ExtractAndTransform values f =
     (let num_el = length values;
          num_chars = num_el div 8;
          (x1, sign1) = SetSign values (replicate ((num_el + 7) div 8) 0) num_chars f
      in if num_el > num_chars * 8
         then SetSignSingle x1 (num_chars * 8) sign1 num_chars (num_el - num_chars * 8) f
         else (x1, sign1))"

definition RestoreWithSign :: "real list \<Rightarrow> 8 word list \<Rightarrow> Functor \<Rightarrow> failure + real list" where
  "RestoreWithSign values sign f =
     (let num_el = length values;
          num_chars = num_el div 8
      in case UnSetSign values sign num_chars f of
           Inl err \<Rightarrow> Inl err
         | Inr x3 \<Rightarrow>
             if num_el > num_chars * 8
             then UnSetSignSingle x3 (num_chars * 8) sign num_chars (num_el - num_chars * 8) f
             else Inr x3)"

subsection \<open>Closed forms of the loops\<close>

text \<open>
  What the loops compute, written entry by entry: \<open>map_range\<close> applies a function to
  the entries from \<open>lo\<close> up to \<open>hi\<close>; \<open>sign_byte\<close> packs the signs of \<open>n\<close> entries
  into one byte; \<open>sign_bytes\<close> is the whole sign buffer of an array; \<open>restore_range\<close>
  puts the recorded signs back on the transformed entries from \<open>lo\<close> up to \<open>hi\<close>.
\<close>

definition map_range :: "(real \<Rightarrow> real) \<Rightarrow> nat \<Rightarrow> nat \<Rightarrow> real list \<Rightarrow> real list" where
  "map_range g lo hi x = map (\<lambda>k. if lo \<le> k \<and> k < hi then g (x ! k) else x ! k) [0..<length x]"

definition sign_byte :: "real list \<Rightarrow> nat \<Rightarrow> nat \<Rightarrow> 8 word" where
  "sign_byte x off n = fold (\<lambda>i w. w OR push_bit i (of_bool (x ! (off + i) < 0))) [0..<n] 0"

definition sign_bytes :: "real list \<Rightarrow> 8 word list" where
  "sign_bytes x = map (\<lambda>t. sign_byte x (8 * t) (min 8 (length x - 8 * t))) [0..<(length x + 7) div 8]"

definition restore_range :: "Functor \<Rightarrow> 8 word list \<Rightarrow> nat \<Rightarrow> nat \<Rightarrow> real list \<Rightarrow> real list" where
  "restore_range f sign lo hi x =
     map (\<lambda>k. if lo \<le> k \<and> k < hi
               then (if bit (sign ! (k div 8)) (k mod 8) then - apply_F f (x ! k) else apply_F f (x ! k))
               else x ! k) [0..<length x]"

subsection \<open>The logical matrix\<close>

text \<open>
  The entries of a compressed half, in storage order, as triples of bucket, paired
  index and value; the logical entries \<open>(row, col, value)\<close> read from the
  row-compressed half and from the column-compressed half of a matrix (the supplied
  orientation is the first half of the buffers, the converted one the second, as
  \<open>MultDiag\<close> addresses them); the well-formedness of the buffers (section 4.1 of the
  spec: offsets start at 0, do not decrease and end at \<open>nnz\<close>, indices lie in the other
  dimension); and the dense matrix that the entries of the row-compressed half denote,
  duplicates summed.
\<close>

definition half_entries ::
  "real list \<Rightarrow> nat \<Rightarrow> nat list \<Rightarrow> nat \<Rightarrow> nat list \<Rightarrow> nat \<Rightarrow> nat \<Rightarrow> (nat \<times> nat \<times> real) list" where
  "half_entries data doff ind ioff ptr poff sz =
     concat (map (\<lambda>t. map (\<lambda>i. (t, ind ! (ioff + i), data ! (doff + i)))
                       [ptr ! (poff + t)..<ptr ! (poff + t + 1)])
               [0..<sz])"

definition wf_half :: "nat list \<Rightarrow> nat \<Rightarrow> nat \<Rightarrow> nat \<Rightarrow> nat list \<Rightarrow> nat \<Rightarrow> nat \<Rightarrow> bool" where
  "wf_half ptr poff sz len ind ioff sec \<longleftrightarrow>
     ptr ! poff = 0 \<and> ptr ! (poff + sz) = len
     \<and> list_all (\<lambda>t. ptr ! (poff + t) \<le> ptr ! (poff + t + 1)) [0..<sz]
     \<and> list_all (\<lambda>k. ind ! (ioff + k) < sec) [0..<len]"

definition row_entries :: "MatrixSparse \<Rightarrow> (nat \<times> nat \<times> real) list" where
  "row_entries A =
     (if M_ord A = ROW
      then half_entries (Data A) 0 (Ind A) 0 (Ptr A) 0 (Rows A)
      else half_entries (Data A) (Nnz A) (Ind A) (Nnz A) (Ptr A) (Cols A + 1) (Rows A))"

definition col_entries :: "MatrixSparse \<Rightarrow> (nat \<times> nat \<times> real) list" where
  "col_entries A =
     map (\<lambda>(c, r, v). (r, c, v))
       (if M_ord A = ROW
        then half_entries (Data A) (Nnz A) (Ind A) (Nnz A) (Ptr A) (Rows A + 1) (Cols A)
        else half_entries (Data A) 0 (Ind A) 0 (Ptr A) 0 (Cols A))"

definition wf_matrix :: "MatrixSparse \<Rightarrow> bool" where
  "wf_matrix A \<longleftrightarrow>
     done_init A \<and> length (Data A) = 2 * Nnz A \<and> length (Ind A) = 2 * Nnz A
     \<and> length (Ptr A) = Rows A + Cols A + 2
     \<and> (if M_ord A = ROW
        then wf_half (Ptr A) 0 (Rows A) (Nnz A) (Ind A) 0 (Cols A)
             \<and> wf_half (Ptr A) (Rows A + 1) (Cols A) (Nnz A) (Ind A) (Nnz A) (Rows A)
        else wf_half (Ptr A) 0 (Cols A) (Nnz A) (Ind A) 0 (Rows A)
             \<and> wf_half (Ptr A) (Cols A + 1) (Rows A) (Nnz A) (Ind A) (Nnz A) (Cols A))"

definition same_entries :: "MatrixSparse \<Rightarrow> bool" where
  "same_entries A \<longleftrightarrow> mset (row_entries A) = mset (col_entries A)"

definition dual_ok :: "MatrixSparse \<Rightarrow> bool" where
  "dual_ok A \<longleftrightarrow> wf_matrix A \<and> same_entries A"

definition dense :: "MatrixSparse \<Rightarrow> nat \<Rightarrow> nat \<Rightarrow> real" where
  "dense A i j =
     sum_list (map (\<lambda>(r, c, v). v) (filter (\<lambda>(r, c, v). r = i \<and> c = j) (row_entries A)))"

subsection \<open>Input of the constructor, and the scatter loop in closed form\<close>

text \<open>
  The precondition of section 4.1 of the spec on the arrays handed to the constructor;
  the logical entries they denote; the positions of a compressed half in loop order,
  each with its bucket; one scatter step on a single output array; and the number of
  elements of a list that fall in a bucket.
\<close>

definition wf_input :: "MatrixSparse \<Rightarrow> bool" where
  "wf_input A \<longleftrightarrow>
     \<not> done_init A
     \<and> Nnz A \<le> length (orig_data (info A)) \<and> Nnz A \<le> length (orig_ind (info A))
     \<and> (if M_ord A = ROW
        then Rows A + 1 \<le> length (orig_ptr (info A))
             \<and> wf_half (orig_ptr (info A)) 0 (Rows A) (Nnz A) (orig_ind (info A)) 0 (Cols A)
        else Cols A + 1 \<le> length (orig_ptr (info A))
             \<and> wf_half (orig_ptr (info A)) 0 (Cols A) (Nnz A) (orig_ind (info A)) 0 (Rows A))"

definition bucket_pos :: "nat list \<Rightarrow> nat \<Rightarrow> nat \<Rightarrow> (nat \<times> nat) list" where
  "bucket_pos ptr poff sz =
     concat (map (\<lambda>t. map (Pair t) [ptr ! (poff + t)..<ptr ! (poff + t + 1)]) [0..<sz])"

definition place ::
  "('e \<Rightarrow> nat) \<Rightarrow> ('e \<Rightarrow> 'a) \<Rightarrow> 'e \<Rightarrow> nat list \<times> 'a list \<Rightarrow> nat list \<times> 'a list" where
  "place key g e = (\<lambda>(nxt, out). (nxt[key e := nxt ! key e + 1], out[nxt ! key e := g e]))"

definition key_count :: "('e \<Rightarrow> nat) \<Rightarrow> nat \<Rightarrow> 'e list \<Rightarrow> nat" where
  "key_count key j es = length (filter (\<lambda>e. key e = j) es)"

definition input_entries :: "MatrixSparse \<Rightarrow> (nat \<times> nat \<times> real) list" where
  "input_entries A =
     (if M_ord A = ROW
      then half_entries (orig_data (info A)) 0 (orig_ind (info A)) 0 (orig_ptr (info A)) 0 (Rows A)
      else map (\<lambda>(c, r, v). (r, c, v))
             (half_entries (orig_data (info A)) 0 (orig_ind (info A)) 0 (orig_ptr (info A)) 0
                (Cols A)))"

subsection \<open>Transforms of the logical entries\<close>

text \<open>
  What \<open>MultDiag\<close> does to a logical entry \<open>(row, col, value)\<close>, and what an
  entry-wise transform of the value buffer does to it.
\<close>

definition scale_entry :: "real list \<Rightarrow> real list \<Rightarrow> nat \<times> nat \<times> real \<Rightarrow> nat \<times> nat \<times> real" where
  "scale_entry d e = (\<lambda>(r, c, v). (r, c, v * (d ! r * e ! c)))"

definition map_entry :: "(real \<Rightarrow> real) \<Rightarrow> nat \<times> nat \<times> real \<Rightarrow> nat \<times> nat \<times> real" where
  "map_entry g = (\<lambda>(r, c, v). (r, c, g v))"

subsection \<open>The tail of Equil, the spec's layout and further concrete inputs\<close>

text \<open>
  The tail of \<open>Equil\<close> after the signs are restored (lines 212 to 237), as a function
  of the vectors that \<open>SinkhornKnopp\<close> returned: the square roots of \<open>d\<close> and \<open>e\<close>,
  \<open>MultDiag\<close>, the norm estimate and the three rescalings.
\<close>

definition Equil_scaled ::
  "MatrixSparse \<Rightarrow> real list \<Rightarrow> real list
     \<Rightarrow> failure + (int \<times> MatrixSparse \<times> real list \<times> real list)" where
  "Equil_scaled A d1 e1 =
     (case transform_F SqrtF d1 (Rows A) of
        Inl err \<Rightarrow> Inl err
      | Inr d2 \<Rightarrow>
     (case transform_F SqrtF e1 (Cols A) of
        Inl err \<Rightarrow> Inl err
      | Inr e2 \<Rightarrow>
     (let x5 = MultDiag d2 e2 (Rows A) (Cols A) (Nnz A) (M_ord A) (Data A) (Ind A) (Ptr A)
      in case fdiv (blas_nrm2 (take (Nnz A) x5)) (sqrt (real (min (Rows A) (Cols A)))) of
           Inl err \<Rightarrow> Inl err
         | Inr normA \<Rightarrow>
        (case fdiv 1 normA of
           Inl err \<Rightarrow> Inl err
         | Inr c \<Rightarrow>
        (case inv_sqrt normA of
           Inl err \<Rightarrow> Inl err
         | Inr c2 \<Rightarrow>
             Inr (0, A\<lparr>Data := vector_scale x5 (2 * Nnz A) c\<rparr>,
                  vector_scale d2 (Rows A) c2, vector_scale e2 (Cols A) c2))))))"

text \<open>The global scalar \<open>normA\<close> of \<open>Equil\<close>, as a function of the vectors of \<open>SinkhornKnopp\<close>.\<close>

definition equil_normA :: "MatrixSparse \<Rightarrow> real list \<Rightarrow> real list \<Rightarrow> real" where
  "equil_normA A d1 e1 =
     blas_nrm2 (take (Nnz A)
       (MultDiag (map sqrt d1) (map sqrt e1) (Rows A) (Cols A) (Nnz A) (M_ord A)
          (Data A) (Ind A) (Ptr A)))
     / sqrt (real (min (Rows A) (Cols A)))"

text \<open>
  The layout as section 3 of the spec words it, whatever the declared order: entries
  \<open>[0, nnz)\<close> read as the row-compressed half with the first \<open>m + 1\<close> offsets, entries
  \<open>[nnz, 2 * nnz)\<close> read as the column-compressed half with the following \<open>n + 1\<close>
  offsets.
\<close>

definition spec_row_entries :: "MatrixSparse \<Rightarrow> (nat \<times> nat \<times> real) list" where
  "spec_row_entries A = half_entries (Data A) 0 (Ind A) 0 (Ptr A) 0 (Rows A)"

definition spec_col_entries :: "MatrixSparse \<Rightarrow> (nat \<times> nat \<times> real) list" where
  "spec_col_entries A =
     map (\<lambda>(c, r, v). (r, c, v))
       (half_entries (Data A) (Nnz A) (Ind A) (Nnz A) (Ptr A) (Rows A + 1) (Cols A))"

text \<open>
  The 1 by 2 matrix with row \<open>(1, 2)\<close>, supplied column-compressed; the 2 by 2 matrix
  without entries; a stand-in for \<open>SinkhornKnopp\<close> that returns the scale factors 1;
  a stand-in for \<open>Norm2Est\<close>, which \<open>Equil\<close> never calls.
\<close>

definition colcase_raw :: MatrixSparse where
  "colcase_raw =
     \<lparr>Rows = 1, Cols = 2, done_init = False,
      info = \<lparr>orig_data = [1, 2], orig_ptr = [0, 1, 2], orig_ind = [0, 0]\<rparr>,
      Data = [], Ptr = [], Ind = [], Nnz = 2, M_ord = COL\<rparr>"

definition colcase_ready :: MatrixSparse where
  "colcase_ready =
     colcase_raw\<lparr>done_init := True, Data := [1, 2, 1, 2],
                 Ind := [0, 0, 0, 1], Ptr := [0, 1, 2, 0, 2]\<rparr>"

definition zero_raw :: MatrixSparse where
  "zero_raw =
     \<lparr>Rows = 2, Cols = 2, done_init = False,
      info = \<lparr>orig_data = [], orig_ptr = [0, 0, 0], orig_ind = []\<rparr>,
      Data = [], Ptr = [], Ind = [], Nnz = 0, M_ord = ROW\<rparr>"

definition zero_ready :: MatrixSparse where
  "zero_ready =
     zero_raw\<lparr>done_init := True, Data := [], Ind := [], Ptr := [0, 0, 0, 0, 0, 0]\<rparr>"

definition SinkhornKnopp_ones ::
  "MatrixSparse \<Rightarrow> real list \<Rightarrow> real list \<Rightarrow> real list \<times> real list" where
  "SinkhornKnopp_ones A d e = (replicate (Rows A) 1, replicate (Cols A) 1)"

definition Norm2Est_unused :: "MatrixSparse \<Rightarrow> real" where
  "Norm2Est_unused A = 0"

subsection \<open>Equil under other values of the two constants\<close>

text \<open>
  The constants \<open>kNormEquilibrate\<close> and \<open>kNormNormalize\<close> (lines 17 and 18) are the only
  way to request a norm: \<open>Equil\<close> takes no norm argument. \<open>Equil_norms\<close> is the body of
  \<open>Equil\<close> (lines 156 to 238) with the two constants as parameters \<open>kEq\<close> and \<open>kNrm\<close>,
  that is the function the file defines when it is compiled with other values of them.
\<close>

definition Equil_norms ::
  "NormTypes \<Rightarrow> NormTypes \<Rightarrow> build \<Rightarrow> (MatrixSparse \<Rightarrow> real list \<Rightarrow> real list \<Rightarrow> real list \<times> real list)
     \<Rightarrow> (MatrixSparse \<Rightarrow> real) \<Rightarrow> MatrixSparse \<Rightarrow> real list \<Rightarrow> real list
     \<Rightarrow> failure + (int \<times> MatrixSparse \<times> real list \<times> real list)" where
  "Equil_norms kEq kNrm b SinkhornKnopp Norm2Est A d e =
     DEBUG_ASSERT b (done_init A)
       (if \<not> done_init A then Inr (1, A, d, e)
        else
          let num_el = 2 * Nnz A;
              num_sign_bytes = (num_el + 7) div 8;
              sign = replicate num_sign_bytes 0;
              num_chars = num_el div 8;
              (x1, sign1) =
                (if kEq = kNorm2 \<or> kEq = kNormFro
                 then SetSign (Data A) sign num_chars SquareF
                 else SetSign (Data A) sign num_chars AbsF);
              (x2, sign2) =
                (if num_el > num_chars * 8
                 then (if kEq = kNorm2 \<or> kEq = kNormFro
                       then SetSignSingle x1 (num_chars * 8) sign1 num_chars
                              (num_el - num_chars * 8) SquareF
                       else SetSignSingle x1 (num_chars * 8) sign1 num_chars
                              (num_el - num_chars * 8) AbsF)
                 else (x1, sign1));
              (d1, e1) = SinkhornKnopp (A\<lparr>Data := x2\<rparr>) d e
          in case (if kEq = kNorm2 \<or> kEq = kNormFro
                   then UnSetSign x2 sign2 num_chars SqrtF
                   else UnSetSign x2 sign2 num_chars IdentityF) of
               Inl err \<Rightarrow> Inl err
             | Inr x3 \<Rightarrow>
            (case (if num_el > num_chars * 8
                   then (if kEq = kNorm2 \<or> kEq = kNormFro
                         then UnSetSignSingle x3 (num_chars * 8) sign2 num_chars
                                (num_el - num_chars * 8) SqrtF
                         else UnSetSignSingle x3 (num_chars * 8) sign2 num_chars
                                (num_el - num_chars * 8) IdentityF)
                   else Inr x3) of
               Inl err \<Rightarrow> Inl err
             | Inr x4 \<Rightarrow>
            (case (if kEq = kNorm2 \<or> kEq = kNormFro
                   then (case transform_F SqrtF d1 (Rows A) of
                           Inl err \<Rightarrow> Inl err
                         | Inr d2 \<Rightarrow>
                             (case transform_F SqrtF e1 (Cols A) of
                                Inl err \<Rightarrow> Inl err
                              | Inr e2 \<Rightarrow> Inr (d2, e2)))
                   else Inr (d1, e1)) of
               Inl err \<Rightarrow> Inl err
             | Inr (d2, e2) \<Rightarrow>
            (let x5 = MultDiag d2 e2 (Rows A) (Cols A) (Nnz A) (M_ord A) x4 (Ind A) (Ptr A)
             in case NormEst Norm2Est kNrm (A\<lparr>Data := x5\<rparr>) of
                  Inl err \<Rightarrow> Inl err
                | Inr normA \<Rightarrow>
               (case fdiv 1 normA of
                  Inl err \<Rightarrow> Inl err
                | Inr c \<Rightarrow>
               (case inv_sqrt normA of
                  Inl err \<Rightarrow> Inl err
                | Inr c2 \<Rightarrow>
                    Inr (0, A\<lparr>Data := vector_scale x5 num_el c\<rparr>,
                         vector_scale d2 (Rows A) c2, vector_scale e2 (Cols A) c2)))))))"



section \<open>Properties\<close>

subsection \<open>The scenario\<close>

lemma scenario_new:
  "MatrixSparse_new (CHR ''r'') 2 2 3 [4, 2, 3] [0, 2, 3] [0, 1, 1] = Inr scenario_raw"
  by (simp add: MatrixSparse_new_def ASSERT_def scenario_raw_def)

lemma scenario_init: "Init b scenario_raw = Inr (0, scenario_ready)"
  by (cases b)
    (simp_all add: Init_def DEBUG_ASSERT_def ASSERT_def scenario_raw_def scenario_ready_def
      spmat_memcpy_def convert_half_def count_buckets_def scatter_def scatter_step_def
      upt_conv_Cons Let_def eval_nat_numeral)

lemma scenario_ready_done: "done_init scenario_ready"
  by (simp add: scenario_ready_def scenario_raw_def)

text \<open>
  C3. For the 2 by 2 matrix with 3 nonzeros built from the row-compressed values
  \<open>[4, 2, 3]\<close>, offsets \<open>[0, 2, 3]\<close> and indices \<open>[0, 1, 1]\<close>, constructed and initialised,
  the call \<open>Mul('n', 1, [1, 1], 0, y)\<close> returns status 0 and leaves \<open>y = [6, 3]\<close>,
  whatever \<open>y\<close> held before.
\<close>

theorem C3_mul_scenario:
  "MatrixSparse_new (CHR ''r'') 2 2 3 [4, 2, 3] [0, 2, 3] [0, 1, 1] = Inr scenario_raw
   \<and> Init b scenario_raw = Inr (0, scenario_ready)
   \<and> Mul b scenario_ready (CHR ''n'') 1 [1, 1] 0 [y0, y1] = Inr (0, [6, 3])"
proof -
  have "Mul b scenario_ready (CHR ''n'') 1 [1, 1] 0 [y0, y1] = Inr (0, [6, 3])"
    by (cases b)
      (simp_all add: Mul_def DEBUG_ASSERT_def ASSERT_def OpToCblasOp_def spblas_gemv_def
        gemv_half_def dot_bucket_def scenario_ready_def scenario_raw_def upt_conv_Cons
        eval_nat_numeral)
  then show ?thesis
    using scenario_new scenario_init by simp
qed

subsection \<open>Rejections\<close>

text \<open>
  C9. A constructor call with an orientation tag other than \<open>r\<close>, \<open>R\<close>, \<open>c\<close>, \<open>C\<close> is
  rejected by the assertion, in every build: no matrix is constructed.
\<close>

theorem C9_bad_orientation_rejected:
  "ord \<noteq> CHR ''r'' \<Longrightarrow> ord \<noteq> CHR ''R'' \<Longrightarrow> ord \<noteq> CHR ''c'' \<Longrightarrow> ord \<noteq> CHR ''C''
   \<Longrightarrow> MatrixSparse_new ord m n nnz data ptr ind = Inl AssertFailed"
  by (simp add: MatrixSparse_new_def ASSERT_def)

theorem C9_bad_orientation_rejected_witness:
  "CHR ''x'' \<noteq> CHR ''r'' \<and> CHR ''x'' \<noteq> CHR ''R'' \<and> CHR ''x'' \<noteq> CHR ''c''
   \<and> CHR ''x'' \<noteq> CHR ''C''
   \<and> MatrixSparse_new (CHR ''x'') 2 2 3 [4, 2, 3] [0, 2, 3] [0, 1, 1] = Inl AssertFailed"
  using C9_bad_orientation_rejected [of "CHR ''x''" 2 2 3 "[4, 2, 3]" "[0, 2, 3]" "[0, 1, 1]"]
  by simp

text \<open>
  C8, as the code has it. In a release build a second \<open>Init\<close>, and a \<open>Mul\<close> or an
  \<open>Equil\<close> before \<open>Init\<close>, return status 1 and leave the matrix, \<open>y\<close>, \<open>d\<close> and \<open>e\<close> as
  they were. In a debug build the \<open>DEBUG_ASSERT\<close> in front of each check fires
  instead and nothing is returned.
\<close>

theorem C8_usage_errors:
  "(done_init A \<longrightarrow>
      Init b A = (if b = Release then Inr (1, A) else Inl AssertFailed))
   \<and> (\<not> done_init A' \<longrightarrow>
      Mul b A' tr alpha x beta y = (if b = Release then Inr (1, y) else Inl AssertFailed)
      \<and> Equil b SinkhornKnopp Norm2Est A' d e =
          (if b = Release then Inr (1, A', d, e) else Inl AssertFailed))"
  by (cases b) (simp_all add: Init_def Mul_def Equil_def DEBUG_ASSERT_def ASSERT_def)

theorem C8_usage_errors_witness:
  "done_init scenario_ready \<and> \<not> done_init scenario_raw
   \<and> Init Release scenario_ready = Inr (1, scenario_ready)
   \<and> Mul Release scenario_raw (CHR ''n'') 1 [1, 1] 0 [5, 7] = Inr (1, [5, 7])
   \<and> Equil Release (\<lambda>A d e. (d, e)) (\<lambda>A. 0) scenario_raw [1, 1] [1, 1]
       = Inr (1, scenario_raw, [1, 1], [1, 1])"
  using C8_usage_errors [of scenario_ready Release scenario_raw "CHR ''n''" 1 "[1, 1]" 0
      "[5, 7]" "\<lambda>A d e. (d, e)" "\<lambda>A. 0" "[1, 1]" "[1, 1]"]
  by (simp add: scenario_ready_def scenario_raw_def)

text \<open>
  C8 as stated fails in a debug build: a second \<open>Init\<close> on the initialised scenario
  matrix returns no status code.
\<close>

theorem C8_debug_counterexample: "Init Debug scenario_ready = Inl AssertFailed"
  by (simp add: Init_def DEBUG_ASSERT_def ASSERT_def scenario_ready_def scenario_raw_def)

subsection \<open>The sign codec\<close>

lemma length_map_range [simp]: "length (map_range g lo hi x) = length x"
  by (simp add: map_range_def)

lemma nth_map_range:
  "k < length x \<Longrightarrow> map_range g lo hi x ! k = (if lo \<le> k \<and> k < hi then g (x ! k) else x ! k)"
  by (simp add: map_range_def)

lemma map_range_step:
  "hi < length x \<Longrightarrow> lo \<le> hi \<Longrightarrow>
   (map_range g lo hi x)[hi := g (map_range g lo hi x ! hi)] = map_range g lo (Suc hi) x"
  by (rule nth_equalityI) (auto simp: nth_map_range nth_list_update)

lemma map_range_join:
  "lo \<le> mid \<Longrightarrow> mid \<le> hi \<Longrightarrow> map_range g mid hi (map_range g lo mid x) = map_range g lo hi x"
  by (rule nth_equalityI) (auto simp: nth_map_range)

lemma map_range_all: "length x \<le> hi \<Longrightarrow> map_range g 0 hi x = map g x"
  by (rule nth_equalityI) (auto simp: nth_map_range)

lemma map_range_empty [simp]: "map_range g lo lo x = x"
  by (rule nth_equalityI) (auto simp: nth_map_range)

lemma bit_sign_byte: "bit (sign_byte x off n) j \<longleftrightarrow> j < n \<and> j < 8 \<and> x ! (off + j) < 0"
proof (induction n)
  case 0
  then show ?case by (simp add: sign_byte_def)
next
  case (Suc n)
  have "sign_byte x off (Suc n) = sign_byte x off n OR push_bit n (of_bool (x ! (off + n) < 0))"
    by (simp add: sign_byte_def)
  then show ?case
    using Suc by (auto simp: bit_or_iff bit_push_bit_iff bit_of_bool_iff less_Suc_eq)
qed

lemma sign_byte_cong:
  "(\<And>i. i < n \<Longrightarrow> x ! (off + i) = y ! (off + i)) \<Longrightarrow> sign_byte x off n = sign_byte y off n"
  by (rule bit_eqI) (auto simp: bit_sign_byte)

lemma set_loop:
  "off + n \<le> length x \<Longrightarrow> s < length sign \<Longrightarrow>
   fold (\<lambda>i (x, sign).
           (x[off + i := g (x ! (off + i))],
            sign[s := sign ! s OR push_bit i (of_bool (x ! (off + i) < 0))]))
     [0..<n] (x, sign[s := 0])
   = (map_range g off (off + n) x, sign[s := sign_byte x off n])"
proof (induction n)
  case 0
  then show ?case by (simp add: sign_byte_def)
next
  case (Suc n)
  have nth: "map_range g off (off + n) x ! (off + n) = x ! (off + n)"
    using Suc.prems by (simp add: nth_map_range)
  have step: "(map_range g off (off + n) x)[off + n := g (x ! (off + n))]
              = map_range g off (off + Suc n) x"
    using map_range_step [of "off + n" x off g] Suc.prems nth by simp
  have byte: "sign_byte x off (Suc n)
              = sign_byte x off n OR push_bit n (of_bool (x ! (off + n) < 0))"
    by (simp add: sign_byte_def)
  show ?case
    using Suc by (simp add: nth step byte)
qed


lemma SetSign_eq:
  "8 * sz \<le> length x \<Longrightarrow> sz \<le> length sign \<Longrightarrow>
   SetSign x sign sz f
   = (map_range (\<lambda>v. apply_F f \<bar>v\<bar>) 0 (8 * sz) x,
      map (\<lambda>t. if t < sz then sign_byte x (8 * t) 8 else sign ! t) [0..<length sign])"
proof (induction sz)
  case 0
  then show ?case
    by (simp add: SetSign_def map_nth)
next
  case (Suc sz)
  let ?g = "\<lambda>v. apply_F f \<bar>v\<bar>"
  let ?X = "map_range ?g 0 (8 * sz) x"
  let ?S = "map (\<lambda>t. if t < sz then sign_byte x (8 * t) 8 else sign ! t) [0..<length sign]"
  have IH: "SetSign x sign sz f = (?X, ?S)"
    using Suc by simp
  have inner: "fold (\<lambda>i (x, sign).
                   (x[8 * sz + i := ?g (x ! (8 * sz + i))],
                    sign[sz := sign ! sz OR push_bit i (of_bool (x ! (8 * sz + i) < 0))]))
                 [0..<8] (?X, ?S[sz := 0])
               = (map_range ?g (8 * sz) (8 * sz + 8) ?X, ?S[sz := sign_byte ?X (8 * sz) 8])"
    using set_loop [of "8 * sz" 8 ?X sz ?S ?g] Suc.prems by (simp del: upt_rec_numeral upt_Suc)
  have byte: "sign_byte ?X (8 * sz) 8 = sign_byte x (8 * sz) 8"
    using Suc.prems by (intro sign_byte_cong) (simp add: nth_map_range)
  have join: "map_range ?g (8 * sz) (8 * sz + 8) ?X = map_range ?g 0 (8 * Suc sz) x"
    using map_range_join [of 0 "8 * sz" "8 * sz + 8" ?g x] by (simp add: add.commute)
  have bytes: "?S[sz := sign_byte x (8 * sz) 8]
               = map (\<lambda>t. if t < Suc sz then sign_byte x (8 * t) 8 else sign ! t) [0..<length sign]"
    by (rule nth_equalityI) (auto simp: nth_list_update less_Suc_eq)
  have "SetSign x sign (Suc sz) f
        = (case SetSign x sign sz f of (x, sign) \<Rightarrow>
             fold (\<lambda>i (x, sign).
                     (x[8 * sz + i := ?g (x ! (8 * sz + i))],
                      sign[sz := sign ! sz OR push_bit i (of_bool (x ! (8 * sz + i) < 0))]))
               [0..<8] (x, sign[sz := 0]))"
    unfolding SetSign_def upt_Suc_append [OF le0] fold_append comp_def fold.simps id_def
    by (simp only: split_beta fst_conv snd_conv prod.collapse)
  then show ?case
    by (simp only: IH prod.case inner byte join bytes)
qed

lemma SetSignSingle_eq:
  "xoff + bits \<le> length x \<Longrightarrow> soff < length sign \<Longrightarrow>
   SetSignSingle x xoff sign soff bits f
   = (map_range (\<lambda>v. apply_F f \<bar>v\<bar>) xoff (xoff + bits) x, sign[soff := sign_byte x xoff bits])"
  unfolding SetSignSingle_def
  using set_loop [of xoff bits x soff sign "\<lambda>v. apply_F f \<bar>v\<bar>"] by simp

lemma sign_bytes_nth:
  "t < (length v + 7) div 8 \<Longrightarrow>
   sign_bytes v ! t = sign_byte v (8 * t) (min 8 (length v - 8 * t))"
  by (simp add: sign_bytes_def del: upt_Suc)

lemma length_sign_bytes [simp]: "length (sign_bytes v) = (length v + 7) div 8"
  by (simp add: sign_bytes_def)

lemma ExtractAndTransform_eq:
  "ExtractAndTransform v f = (map (\<lambda>a. apply_F f \<bar>a\<bar>) v, sign_bytes v)"
proof -
  let ?g = "\<lambda>a. apply_F f \<bar>a\<bar>"
  let ?n = "length v"
  define c where "c = ?n div 8"
  define r where "r = ?n mod 8"
  have n: "?n = 8 * c + r" and r: "r < 8"
    by (simp_all add: c_def r_def)
  have len: "(?n + 7) div 8 = (if r = 0 then c else Suc c)"
  proof (cases "r = 0")
    case True
    have "(8 * c + 7) div 8 = c"
      by (rule div_nat_eqI) simp_all
    then show ?thesis using True n by simp
  next
    case False
    have "(8 * c + r + 7) div 8 = Suc c"
      by (rule div_nat_eqI) (use r False in simp_all)
    then show ?thesis using False n by simp
  qed
  let ?Z = "replicate ((?n + 7) div 8) (0 :: 8 word)"
  let ?S = "map (\<lambda>t. if t < c then sign_byte v (8 * t) 8 else ?Z ! t) [0..<(?n + 7) div 8]"
  let ?X = "map_range ?g 0 (8 * c) v"
  have "8 * c \<le> ?n" "c \<le> length ?Z"
    using n len by simp_all
  then have bulk: "SetSign v ?Z c f = (?X, ?S)"
    using SetSign_eq [of c v ?Z f] by simp
  have cond: "(c * 8 < ?n) = (r \<noteq> 0)"
    using n by auto
  have tl: "?n - 8 * c = r"
    using n by simp
  have c8: "c * 8 = 8 * c"
    by simp
  have full: "t < c \<Longrightarrow> min 8 (?n - 8 * t) = 8" for t
    using n by (simp add: min_def)
  show ?thesis
  proof (cases "r = 0")
    case True
    have x: "?X = map ?g v"
      using n True by (simp add: map_range_all)
    have s: "?S = sign_bytes v"
    proof (rule nth_equalityI)
      show "length ?S = length (sign_bytes v)" by simp
    next
      fix t assume "t < length ?S"
      then have t: "t < (?n + 7) div 8" by simp
      then have "t < c" using len True by simp
      then show "?S ! t = sign_bytes v ! t"
        using t full by (simp add: sign_bytes_nth del: upt_Suc)
    qed
    have nc: "(8 * c < ?n) = False"
      using cond True by (simp add: mult.commute)
    show ?thesis
      unfolding ExtractAndTransform_def Let_def c_def [symmetric]
      by (simp only: c8 bulk prod.case nc if_False x s)
  next
    case False
    have tail: "SetSignSingle ?X (8 * c) ?S c r f
                = (map_range ?g (8 * c) (8 * c + r) ?X, ?S[c := sign_byte ?X (8 * c) r])"
      by (rule SetSignSingle_eq) (use n len False in simp_all)
    have x: "map_range ?g (8 * c) (8 * c + r) ?X = map ?g v"
      using map_range_join [of 0 "8 * c" "8 * c + r" ?g v] n by (simp add: map_range_all)
    have byte: "sign_byte ?X (8 * c) r = sign_byte v (8 * c) r"
      using n by (intro sign_byte_cong) (simp add: nth_map_range)
    have s: "?S[c := sign_byte v (8 * c) r] = sign_bytes v"
    proof (rule nth_equalityI)
      show "length (?S[c := sign_byte v (8 * c) r]) = length (sign_bytes v)" by simp
    next
      fix t assume "t < length (?S[c := sign_byte v (8 * c) r])"
      then have t: "t < (?n + 7) div 8" by simp
      then have tc: "t < Suc c" using len False by simp
      show "?S[c := sign_byte v (8 * c) r] ! t = sign_bytes v ! t"
      proof (cases "t = c")
        case True
        have "min 8 (?n - 8 * c) = r" using n r by simp
        then show ?thesis
          using t True by (simp add: sign_bytes_nth del: upt_Suc)
      next
        case False
        then have "t < c" using tc by simp
        then show ?thesis
          using t full by (simp add: sign_bytes_nth del: upt_Suc)
      qed
    qed
    have yc: "(8 * c < ?n) = True"
      using cond False by (simp add: mult.commute)
    show ?thesis
      unfolding ExtractAndTransform_def Let_def c_def [symmetric]
      by (simp only: c8 bulk prod.case yc if_True tl tail x byte s)
  qed
qed

lemma bit_sign_bytes:
  "k < length v \<Longrightarrow> bit (sign_bytes v ! (k div 8)) (k mod 8) \<longleftrightarrow> v ! k < 0"
proof -
  assume k: "k < length v"
  define q where "q = k div 8"
  define r where "r = k mod 8"
  have d: "8 * q + r = k" and r: "r < 8"
    by (simp_all add: q_def r_def)
  have "8 * q + 8 \<le> length v + 7"
    using k d r by linarith
  then have "(8 * q + 8) div 8 \<le> (length v + 7) div 8"
    by (rule div_le_mono)
  then have t: "q < (length v + 7) div 8"
    by simp
  have m: "r < min 8 (length v - 8 * q)"
    using k d r by (simp add: min_def) linarith
  have "bit (sign_bytes v ! q) r \<longleftrightarrow> v ! (8 * q + r) < 0"
    using t m by (simp add: sign_bytes_def bit_sign_byte del: upt_Suc)
  then show ?thesis
    by (simp only: d) (simp only: q_def r_def)
qed


lemma block_div_mod:
  "8 * t \<le> k \<Longrightarrow> k < 8 * t + 8 \<Longrightarrow> k div 8 = t \<and> k mod 8 = k - 8 * (t::nat)"
proof -
  assume a: "8 * t \<le> k" "k < 8 * t + 8"
  have d: "k div 8 = t"
    by (rule div_nat_eqI) (use a in simp_all)
  have "k mod 8 = k - 8 * (k div 8)"
    by (simp add: minus_mult_div_eq_mod)
  then show ?thesis using d by simp
qed

lemma nth_restore_range:
  "k < length x \<Longrightarrow>
   restore_range f sign lo hi x ! k
   = (if lo \<le> k \<and> k < hi
      then (if bit (sign ! (k div 8)) (k mod 8) then - apply_F f (x ! k) else apply_F f (x ! k))
      else x ! k)"
  by (simp add: restore_range_def)

lemma length_restore_range [simp]: "length (restore_range f sign lo hi x) = length x"
  by (simp add: restore_range_def)

lemma restore_range_empty [simp]: "restore_range f sign lo lo x = x"
  by (rule nth_equalityI) (auto simp: nth_restore_range)

lemma restore_range_join:
  "lo \<le> mid \<Longrightarrow> mid \<le> hi \<Longrightarrow>
   restore_range f sign mid hi (restore_range f sign lo mid x) = restore_range f sign lo hi x"
  by (rule nth_equalityI) (auto simp: nth_restore_range)

lemma unset_loop:
  "8 * t + n \<le> length x \<Longrightarrow> n \<le> 8 \<Longrightarrow>
   fold (\<lambda>i x. x[8 * t + i := (if bit (sign ! t) i then - apply_F f (x ! (8 * t + i))
                                 else apply_F f (x ! (8 * t + i)))])
     [0..<n] x
   = restore_range f sign (8 * t) (8 * t + n) x"
proof (induction n)
  case 0
  then show ?case by simp
next
  case (Suc n)
  let ?R = "restore_range f sign (8 * t) (8 * t + n) x"
  have dm: "(8 * t + n) div 8 = t" "(8 * t + n) mod 8 = n"
    using block_div_mod [of t "8 * t + n"] Suc.prems by simp_all
  have nth: "?R ! (8 * t + n) = x ! (8 * t + n)"
    using Suc.prems by (simp add: nth_restore_range)
  have step: "?R[8 * t + n := (if bit (sign ! t) n then - apply_F f (x ! (8 * t + n))
                          else apply_F f (x ! (8 * t + n)))]
        = restore_range f sign (8 * t) (8 * t + Suc n) x"
    using Suc.prems dm
    by (intro nth_equalityI) (auto simp: nth_restore_range nth_list_update)
  have IH: "fold (\<lambda>i x. x[8 * t + i := (if bit (sign ! t) i then - apply_F f (x ! (8 * t + i))
                                 else apply_F f (x ! (8 * t + i)))]) [0..<n] x = ?R"
    using Suc by simp
  show ?case
    by (simp only: upt_Suc_append [OF le0] fold_append comp_def fold.simps id_def IH nth step)
qed

lemma UnSetSign_fold:
  "8 * sz \<le> length x \<Longrightarrow>
   fold (\<lambda>t. fold (\<lambda>i x. x[8 * t + i := (if bit (sign ! t) i then - apply_F f (x ! (8 * t + i))
                                             else apply_F f (x ! (8 * t + i)))])
                [0..<8])
     [0..<sz] x
   = restore_range f sign 0 (8 * sz) x"
proof (induction sz)
  case 0
  then show ?case by simp
next
  case (Suc sz)
  let ?R = "restore_range f sign 0 (8 * sz) x"
  have "fold (\<lambda>i x. x[8 * sz + i := (if bit (sign ! sz) i then - apply_F f (x ! (8 * sz + i))
                                        else apply_F f (x ! (8 * sz + i)))])
          [0..<8] ?R
        = restore_range f sign (8 * sz) (8 * sz + 8) ?R"
    using unset_loop [of sz 8 ?R sign f] Suc.prems by simp
  also have "\<dots> = restore_range f sign 0 (8 * Suc sz) x"
    using restore_range_join [of 0 "8 * sz" "8 * sz + 8" f sign x] by (simp add: add.commute)
  finally show ?case
    using Suc
    unfolding upt_Suc_append [OF le0] fold_append comp_def fold.simps id_def
    by simp
qed

lemma UnSetSign_eq:
  "8 * sz \<le> length x \<Longrightarrow> (\<And>k. k < 8 * sz \<Longrightarrow> defined_F f (x ! k)) \<Longrightarrow>
   UnSetSign x sign sz f = Inr (restore_range f sign 0 (8 * sz) x)"
  unfolding UnSetSign_def by (simp only: UnSetSign_fold) (simp add: list_all_iff)

lemma UnSetSignSingle_eq:
  "8 * t + bits \<le> length x \<Longrightarrow> bits \<le> 8
   \<Longrightarrow> (\<And>i. i < bits \<Longrightarrow> defined_F f (x ! (8 * t + i))) \<Longrightarrow>
   UnSetSignSingle x (8 * t) sign t bits f = Inr (restore_range f sign (8 * t) (8 * t + bits) x)"
  unfolding UnSetSignSingle_def by (simp only: unset_loop) (simp add: list_all_iff)

lemma RestoreWithSign_eq:
  assumes "\<And>k. k < length x \<Longrightarrow> defined_F f (x ! k)"
  shows "RestoreWithSign x sign f = Inr (restore_range f sign 0 (length x) x)"
proof -
  let ?n = "length x"
  define c where "c = ?n div 8"
  define r where "r = ?n mod 8"
  have n: "?n = 8 * c + r" and r: "r < 8"
    by (simp_all add: c_def r_def)
  let ?R = "restore_range f sign 0 (8 * c) x"
  have bulk: "UnSetSign x sign c f = Inr ?R"
    by (rule UnSetSign_eq) (use n assms in simp_all)
  have c8: "c * 8 = 8 * c" by simp
  have tl: "?n - 8 * c = r" using n by simp
  show ?thesis
  proof (cases "r = 0")
    case True
    have nc: "(8 * c < ?n) = False" using n True by simp
    have "?R = restore_range f sign 0 ?n x" using n True by simp
    then show ?thesis
      unfolding RestoreWithSign_def Let_def c_def [symmetric]
      by (simp only: c8 bulk sum.case nc if_False)
  next
    case False
    have yc: "(8 * c < ?n) = True" using n False by simp
    have tail: "UnSetSignSingle ?R (8 * c) sign c r f
                = Inr (restore_range f sign (8 * c) (8 * c + r) ?R)"
      by (rule UnSetSignSingle_eq) (use n r assms in \<open>simp_all add: nth_restore_range\<close>)
    have "restore_range f sign (8 * c) (8 * c + r) ?R = restore_range f sign 0 ?n x"
      using restore_range_join [of 0 "8 * c" "8 * c + r" f sign x] n by simp
    then show ?thesis
      unfolding RestoreWithSign_def Let_def c_def [symmetric]
      by (simp only: c8 bulk sum.case yc if_True tl tail)
  qed
qed

lemma restore_square:
  "restore_range SqrtF (sign_bytes v) 0 (length v) (map (\<lambda>a. apply_F SquareF \<bar>a\<bar>) v) = v"
  by (rule nth_equalityI) (auto simp: nth_restore_range bit_sign_bytes)

text \<open>
  C5. For a value array of any length, extracting the signs with the square transform
  yields the squares and one sign bit per entry (bit \<open>k mod 8\<close> of byte \<open>k div 8\<close>, for
  the entries of the bulk and of the tail alike), and restoring with the square root
  gives back the original array exactly, zero entries included.
\<close>

theorem C5_sign_codec_roundtrip:
  "case ExtractAndTransform v SquareF of
     (x, sign) \<Rightarrow>
       x = map (\<lambda>a. a * a) v
       \<and> (\<forall>k<length v. bit (sign ! (k div 8)) (k mod 8) = (v ! k < 0))
       \<and> RestoreWithSign x sign SqrtF = Inr v"
proof -
  let ?x = "map (\<lambda>a. apply_F SquareF \<bar>a\<bar>) v"
  have "RestoreWithSign ?x (sign_bytes v) SqrtF
        = Inr (restore_range SqrtF (sign_bytes v) 0 (length ?x) ?x)"
    by (rule RestoreWithSign_eq) simp
  then have "RestoreWithSign ?x (sign_bytes v) SqrtF = Inr v"
    using restore_square [of v] by simp
  moreover have "?x = map (\<lambda>a. a * a) v"
    by simp
  ultimately show ?thesis
    by (simp add: ExtractAndTransform_eq bit_sign_bytes)
qed

theorem C5_sign_codec_roundtrip_witness:
  "case ExtractAndTransform [3, - 2, 0, 1, - 1, 5, 2, - 7, - 4, 6] SquareF of
     (x, sign) \<Rightarrow>
       x = [9, 4, 0, 1, 1, 25, 4, 49, 16, 36]
       \<and> (\<forall>k<10. bit (sign ! (k div 8)) (k mod 8)
                  = ([3, - 2, 0, 1, - 1, 5, 2, - 7, - 4, 6 :: real] ! k < 0))
       \<and> RestoreWithSign x sign SqrtF = Inr [3, - 2, 0, 1, - 1, 5, 2, - 7, - 4, 6]"
  using C5_sign_codec_roundtrip [of "[3, - 2, 0, 1, - 1, 5, 2, - 7, - 4, 6]"]
  by (simp split: prod.splits)

subsection \<open>Matrix-vector multiply\<close>

lemma wf_half_mono:
  "wf_half ptr poff sz len ind ioff sec \<Longrightarrow> t \<le> u \<Longrightarrow> u \<le> sz
   \<Longrightarrow> ptr ! (poff + t) \<le> ptr ! (poff + u)"
proof (induction u)
  case 0
  then show ?case by simp
next
  case (Suc u)
  show ?case
  proof (cases "t = Suc u")
    case True
    then show ?thesis by simp
  next
    case False
    then have "ptr ! (poff + t) \<le> ptr ! (poff + u)"
      using Suc by simp
    moreover have "ptr ! (poff + u) \<le> ptr ! (poff + u + 1)"
      using Suc.prems by (simp add: wf_half_def list_all_iff)
    ultimately show ?thesis by simp
  qed
qed

lemma wf_half_le_len:
  "wf_half ptr poff sz len ind ioff sec \<Longrightarrow> t \<le> sz \<Longrightarrow> ptr ! (poff + t) \<le> len"
  using wf_half_mono [of ptr poff sz len ind ioff sec t sz] by (simp add: wf_half_def)

lemma wf_half_ind:
  "wf_half ptr poff sz len ind ioff sec \<Longrightarrow> k < len \<Longrightarrow> ind ! (ioff + k) < sec"
  by (simp add: wf_half_def list_all_iff)

lemma bucket_ranges:
  "wf_half ptr poff sz len ind ioff sec \<Longrightarrow> u \<le> sz \<Longrightarrow>
   concat (map (\<lambda>t. [ptr ! (poff + t)..<ptr ! (poff + t + 1)]) [0..<u]) = [0..<ptr ! (poff + u)]"
proof (induction u)
  case 0
  then show ?case by (simp add: wf_half_def)
next
  case (Suc u)
  have "ptr ! (poff + u) \<le> ptr ! (poff + Suc u)"
    using wf_half_mono [of ptr poff sz len ind ioff sec u "Suc u"] Suc.prems by simp
  then have "[0..<ptr ! (poff + u)] @ [ptr ! (poff + u)..<ptr ! (poff + Suc u)]
             = [0..<ptr ! (poff + Suc u)]"
    by (metis le0 upt_add_eq_append le_add_diff_inverse)
  then show ?case
    using Suc by simp
qed

lemma fold_add_sum: "fold (\<lambda>j tmp. tmp + a j) xs (s :: real) = s + sum_list (map a xs)"
  by (induction xs arbitrary: s) (simp_all add: add.assoc)

lemma filter_bucket:
  "t < sz \<Longrightarrow>
   filter (\<lambda>(t', j, v). t' = t) (half_entries data doff ind ioff ptr poff sz)
   = map (\<lambda>i. (t, ind ! (ioff + i), data ! (doff + i))) [ptr ! (poff + t)..<ptr ! (poff + t + 1)]"
proof (induction sz)
  case 0
  then show ?case by simp
next
  case (Suc sz)
  have none: "filter (\<lambda>(t', j, v). t' = t)
                (map (\<lambda>i. (u, ind ! (ioff + i), data ! (doff + i))) is) = []" if "u \<noteq> t" for u "is"
    using that by (induction "is") auto
  have all: "filter (\<lambda>(t', j, v). t' = t)
                (map (\<lambda>i. (t, ind ! (ioff + i), data ! (doff + i))) is)
             = map (\<lambda>i. (t, ind ! (ioff + i), data ! (doff + i))) is" for "is"
    by (induction "is") auto
  have earlier: "filter (\<lambda>(t', j, v). t' = t) (half_entries data doff ind ioff ptr poff sz) = []"
    if "sz \<le> t"
    using that
  proof (induction sz)
    case 0
    then show ?case by (simp add: half_entries_def)
  next
    case (Suc sz)
    then show ?case by (simp add: half_entries_def none)
  qed
  show ?case
  proof (cases "t = sz")
    case True
    then show ?thesis
      using earlier by (simp add: half_entries_def all)
  next
    case False
    then have "t < sz" using Suc.prems by simp
    then show ?thesis
      using Suc.IH False by (simp add: half_entries_def none)
  qed
qed


lemma half_entries_bounds:
  "wf_half ptr poff sz len ind ioff sec
   \<Longrightarrow> (t, j, v) \<in> set (half_entries data doff ind ioff ptr poff sz) \<Longrightarrow> t < sz \<and> j < sec"
proof -
  assume wf: "wf_half ptr poff sz len ind ioff sec"
    and "(t, j, v) \<in> set (half_entries data doff ind ioff ptr poff sz)"
  then obtain i where t: "t < sz" and i: "i < ptr ! (poff + t + 1)" and j: "j = ind ! (ioff + i)"
    by (auto simp: half_entries_def)
  have "ptr ! (poff + (t + 1)) \<le> len"
    using wf_half_le_len [OF wf, of "t + 1"] t by simp
  then have "i < len" using i by (simp add: add.assoc)
  then show ?thesis using wf_half_ind [OF wf] t j by simp
qed

lemma dot_bucket_sum:
  "t < sz \<Longrightarrow>
   dot_bucket val voff ind ioff ptr poff x t
   = sum_list (map (\<lambda>(t', j, v). v * x ! j)
       (filter (\<lambda>(t', j, v). t' = t) (half_entries val voff ind ioff ptr poff sz)))"
  by (simp add: dot_bucket_def fold_add_sum filter_bucket comp_def)

lemma sum_list_delta:
  "k < n \<Longrightarrow> sum_list (map (\<lambda>j. (if k = j then a else 0) * f j) [0..<n]) = a * (f k :: real)"
proof -
  assume k: "k < n"
  have "sum_list (map (\<lambda>j. (if k = j then a else 0) * f j) [0..<n])
        = (\<Sum>j\<in>{0..<n}. if k = j then a * f j else 0)"
    by (simp add: interv_sum_list_conv_sum_set_nat if_distrib [of "\<lambda>c. c * _"] cong: if_cong)
  also have "\<dots> = a * f k"
    using k by simp
  finally show ?thesis .
qed

lemma sum_by_key:
  fixes w :: "'a \<Rightarrow> real"
  assumes "\<And>e. e \<in> set es \<Longrightarrow> P e \<Longrightarrow> k e < n"
  shows "sum_list (map (\<lambda>e. w e * f (k e)) (filter P es))
         = sum_list (map (\<lambda>j. sum_list (map w (filter (\<lambda>e. P e \<and> k e = j) es)) * f j) [0..<n])"
  using assms
proof (induction es)
  case Nil
  then show ?case by simp
next
  case (Cons e es)
  have IH: "sum_list (map (\<lambda>e. w e * f (k e)) (filter P es))
            = sum_list (map (\<lambda>j. sum_list (map w (filter (\<lambda>e. P e \<and> k e = j) es)) * f j) [0..<n])"
    using Cons by simp
  show ?case
  proof (cases "P e")
    case False
    then show ?thesis using IH by simp
  next
    case True
    then have kn: "k e < n" using Cons.prems by simp
    have "sum_list (map (\<lambda>j. sum_list (map w (filter (\<lambda>e. P e \<and> k e = j) (e # es))) * f j) [0..<n])
          = sum_list (map (\<lambda>j. (if k e = j then w e else 0) * f j
                              + sum_list (map w (filter (\<lambda>e. P e \<and> k e = j) es)) * f j) [0..<n])"
      using True by (intro arg_cong [where f = sum_list] map_cong) (auto simp: algebra_simps)
    also have "\<dots> = w e * f (k e)
                     + sum_list (map (\<lambda>j. sum_list (map w (filter (\<lambda>e. P e \<and> k e = j) es)) * f j) [0..<n])"
      using kn by (simp add: sum_list_addf sum_list_delta)
    finally show ?thesis
      using True IH by simp
  qed
qed

lemma sum_filter_mset:
  fixes g :: "'a \<Rightarrow> real"
  shows "mset xs = mset ys \<Longrightarrow> sum_list (map g (filter P xs)) = sum_list (map g (filter P ys))"
proof -
  assume "mset xs = mset ys"
  then have "mset (map g (filter P xs)) = mset (map g (filter P ys))"
    by (metis mset_filter mset_map)
  then show ?thesis
    by (metis sum_mset_sum_list)
qed


lemma gemv_half_sum:
  assumes wf: "wf_half ptr poff sz len ind ioff sec"
  shows "gemv_half val voff ind ioff ptr poff sz alpha (take sec x) beta (take sz y)
         = map (\<lambda>t. alpha * sum_list (map (\<lambda>(t', j, v). v * x ! j)
                    (filter (\<lambda>(t', j, v). t' = t) (half_entries val voff ind ioff ptr poff sz)))
                  + beta * y ! t) [0..<sz]"
proof -
  have "sum_list (map (\<lambda>(t', j, v). v * take sec x ! j) (filter P (half_entries val voff ind ioff ptr poff sz)))
        = sum_list (map (\<lambda>(t', j, v). v * x ! j) (filter P (half_entries val voff ind ioff ptr poff sz)))"
    for P
    by (intro arg_cong [where f = sum_list] map_cong refl)
      (use half_entries_bounds [OF wf] in auto)
  then show ?thesis
    unfolding gemv_half_def
    by (intro map_cong refl) (simp add: dot_bucket_sum [where sz = sz])
qed

lemma row_entries_bounds:
  "wf_matrix A \<Longrightarrow> (r, c, v) \<in> set (row_entries A) \<Longrightarrow> r < Rows A \<and> c < Cols A"
  unfolding wf_matrix_def row_entries_def
  by (cases "M_ord A = ROW") (auto dest: half_entries_bounds)

lemma sum_rows:
  fixes es :: "(nat \<times> nat \<times> real) list"
  assumes "\<And>r c v. (r, c, v) \<in> set es \<Longrightarrow> c < n"
  shows "sum_list (map (\<lambda>(r, c, v). v * f c) (filter (\<lambda>(r, c, v). r = i) es))
         = sum_list (map (\<lambda>j. sum_list (map (\<lambda>(r, c, v). v)
                                   (filter (\<lambda>(r, c, v). r = i \<and> c = j) es)) * f j) [0..<n])"
proof -
  have "e \<in> set es \<Longrightarrow> fst (snd e) < n" for e
    using assms [of "fst e" "fst (snd e)" "snd (snd e)"] by simp
  then show ?thesis
    using sum_by_key [of es "\<lambda>e. fst e = i" "\<lambda>e. fst (snd e)" n "\<lambda>e. snd (snd e)" f]
    by (simp add: split_def)
qed

lemma sum_cols:
  fixes es :: "(nat \<times> nat \<times> real) list"
  assumes "\<And>r c v. (r, c, v) \<in> set es \<Longrightarrow> r < m"
  shows "sum_list (map (\<lambda>(r, c, v). v * f r) (filter (\<lambda>(r, c, v). c = j) es))
         = sum_list (map (\<lambda>i. sum_list (map (\<lambda>(r, c, v). v)
                                   (filter (\<lambda>(r, c, v). r = i \<and> c = j) es)) * f i) [0..<m])"
proof -
  have "e \<in> set es \<Longrightarrow> fst e < m" for e
    using assms [of "fst e" "fst (snd e)" "snd (snd e)"] by simp
  then show ?thesis
    using sum_by_key [of es "\<lambda>e. fst (snd e) = j" "\<lambda>e. fst e" m "\<lambda>e. snd (snd e)" f]
    by (simp add: split_def conj_commute)
qed

lemma row_sum_dense:
  assumes "wf_matrix A"
  shows "sum_list (map (\<lambda>(r, c, v). v * x ! c) (filter (\<lambda>(r, c, v). r = i) (row_entries A)))
         = sum_list (map (\<lambda>j. dense A i j * x ! j) [0..<Cols A])"
  unfolding dense_def
  by (rule sum_rows) (use row_entries_bounds [OF assms] in blast)

lemma col_sum_dense:
  assumes "dual_ok A"
  shows "sum_list (map (\<lambda>(r, c, v). v * x ! r) (filter (\<lambda>(r, c, v). c = j) (col_entries A)))
         = sum_list (map (\<lambda>i. dense A i j * x ! i) [0..<Rows A])"
proof -
  have wf: "wf_matrix A" and same: "mset (col_entries A) = mset (row_entries A)"
    using assms by (simp_all add: dual_ok_def same_entries_def)
  have "sum_list (map (\<lambda>(r, c, v). v * x ! r) (filter (\<lambda>(r, c, v). c = j) (col_entries A)))
        = sum_list (map (\<lambda>(r, c, v). v * x ! r) (filter (\<lambda>(r, c, v). c = j) (row_entries A)))"
    by (rule sum_filter_mset [OF same])
  also have "\<dots> = sum_list (map (\<lambda>i. dense A i j * x ! i) [0..<Rows A])"
    unfolding dense_def
    by (rule sum_cols) (use row_entries_bounds [OF wf] in blast)
  finally show ?thesis .
qed

lemma swap_filter_sum:
  "sum_list (map (\<lambda>(c, r, v). v * x ! r) (filter (\<lambda>(c, r, v). c = j) H))
   = sum_list (map (\<lambda>(r, c, v). v * (x ! r :: real))
       (filter (\<lambda>(r, c, v). c = j) (map (\<lambda>(c, r, v). (r, c, v)) H)))"
  by (induction H) auto


lemma OpToCblasOp_n: "tr = CHR ''n'' \<or> tr = CHR ''N'' \<Longrightarrow> OpToCblasOp tr = Inr CblasNoTrans"
  by (auto simp: OpToCblasOp_def ASSERT_def)

lemma OpToCblasOp_t: "tr = CHR ''t'' \<or> tr = CHR ''T'' \<Longrightarrow> OpToCblasOp tr = Inr CblasTrans"
  by (auto simp: OpToCblasOp_def ASSERT_def)

lemma Mul_notrans:
  assumes ok: "dual_ok A" and tr: "tr = CHR ''n'' \<or> tr = CHR ''N''"
  shows "Mul b A tr alpha x beta y
         = Inr (0, map (\<lambda>i. alpha * sum_list (map (\<lambda>j. dense A i j * x ! j) [0..<Cols A])
                            + beta * y ! i) [0..<Rows A] @ drop (Rows A) y)"
proof -
  have wf: "wf_matrix A"
    using ok by (simp add: dual_ok_def)
  have init: "done_init A"
    using wf by (simp add: wf_matrix_def)
  have pre: "Mul b A tr alpha x beta y
             = Inr (0, spblas_gemv (if M_ord A = ROW then CblasRowMajor else CblasColMajor)
                         CblasNoTrans alpha (Data A, Ind A, Ptr A, Rows A, Cols A, Nnz A)
                         (take (Cols A) x) beta (take (Rows A) y) @ drop (Rows A) y)"
    using init tr by (cases b) (auto simp: Mul_def DEBUG_ASSERT_def ASSERT_def OpToCblasOp_n)
  have "spblas_gemv (if M_ord A = ROW then CblasRowMajor else CblasColMajor)
          CblasNoTrans alpha (Data A, Ind A, Ptr A, Rows A, Cols A, Nnz A)
          (take (Cols A) x) beta (take (Rows A) y)
        = map (\<lambda>i. alpha * sum_list (map (\<lambda>(r, c, v). v * x ! c)
                       (filter (\<lambda>(r, c, v). r = i) (row_entries A))) + beta * y ! i) [0..<Rows A]"
  proof (cases "M_ord A = ROW")
    case True
    then have "wf_half (Ptr A) 0 (Rows A) (Nnz A) (Ind A) 0 (Cols A)"
      using wf by (simp add: wf_matrix_def)
    then show ?thesis
      using True gemv_half_sum [of "Ptr A" 0 "Rows A" "Nnz A" "Ind A" 0 "Cols A" "Data A" 0 alpha x beta y]
      by (simp add: spblas_gemv_def row_entries_def)
  next
    case False
    then have "wf_half (Ptr A) (Cols A + 1) (Rows A) (Nnz A) (Ind A) (Nnz A) (Cols A)"
      using wf by (simp add: wf_matrix_def)
    then show ?thesis
      using False gemv_half_sum [of "Ptr A" "Cols A + 1" "Rows A" "Nnz A" "Ind A" "Nnz A" "Cols A"
          "Data A" "Nnz A" alpha x beta y]
      by (simp add: spblas_gemv_def row_entries_def)
  qed
  then show ?thesis
    by (simp only: pre row_sum_dense [OF wf])
qed

lemma Mul_trans:
  assumes ok: "dual_ok A" and tr: "tr = CHR ''t'' \<or> tr = CHR ''T''"
  shows "Mul b A tr alpha x beta y
         = Inr (0, map (\<lambda>j. alpha * sum_list (map (\<lambda>i. dense A i j * x ! i) [0..<Rows A])
                            + beta * y ! j) [0..<Cols A] @ drop (Cols A) y)"
proof -
  have wf: "wf_matrix A"
    using ok by (simp add: dual_ok_def)
  have init: "done_init A"
    using wf by (simp add: wf_matrix_def)
  have pre: "Mul b A tr alpha x beta y
             = Inr (0, spblas_gemv (if M_ord A = ROW then CblasRowMajor else CblasColMajor)
                         CblasTrans alpha (Data A, Ind A, Ptr A, Rows A, Cols A, Nnz A)
                         (take (Rows A) x) beta (take (Cols A) y) @ drop (Cols A) y)"
    using init tr by (cases b) (auto simp: Mul_def DEBUG_ASSERT_def ASSERT_def OpToCblasOp_t)
  have "spblas_gemv (if M_ord A = ROW then CblasRowMajor else CblasColMajor)
          CblasTrans alpha (Data A, Ind A, Ptr A, Rows A, Cols A, Nnz A)
          (take (Rows A) x) beta (take (Cols A) y)
        = map (\<lambda>j. alpha * sum_list (map (\<lambda>(r, c, v). v * x ! r)
                       (filter (\<lambda>(r, c, v). c = j) (col_entries A))) + beta * y ! j) [0..<Cols A]"
  proof (cases "M_ord A = ROW")
    case True
    then have "wf_half (Ptr A) (Rows A + 1) (Cols A) (Nnz A) (Ind A) (Nnz A) (Rows A)"
      using wf by (simp add: wf_matrix_def)
    then show ?thesis
      using True gemv_half_sum [of "Ptr A" "Rows A + 1" "Cols A" "Nnz A" "Ind A" "Nnz A" "Rows A"
          "Data A" "Nnz A" alpha x beta y]
      by (simp add: spblas_gemv_def col_entries_def swap_filter_sum)
  next
    case False
    then have "wf_half (Ptr A) 0 (Cols A) (Nnz A) (Ind A) 0 (Rows A)"
      using wf by (simp add: wf_matrix_def)
    then show ?thesis
      using False gemv_half_sum [of "Ptr A" 0 "Cols A" "Nnz A" "Ind A" 0 "Rows A" "Data A" 0
          alpha x beta y]
      by (simp add: spblas_gemv_def col_entries_def swap_filter_sum)
  qed
  then show ?thesis
    by (simp only: pre col_sum_dense [OF ok])
qed


lemma scenario_row_entries: "row_entries scenario_ready = [(0, 0, 4), (0, 1, 2), (1, 1, 3)]"
  by (simp add: row_entries_def half_entries_def scenario_ready_def scenario_raw_def
      upt_conv_Cons eval_nat_numeral)

lemma scenario_col_entries: "col_entries scenario_ready = [(0, 0, 4), (0, 1, 2), (1, 1, 3)]"
  by (simp add: col_entries_def half_entries_def scenario_ready_def scenario_raw_def
      upt_conv_Cons eval_nat_numeral)

lemma scenario_wf: "wf_matrix scenario_ready"
  by (simp add: wf_matrix_def wf_half_def scenario_ready_def scenario_raw_def
      upt_conv_Cons eval_nat_numeral)

lemma scenario_ready_ok: "dual_ok scenario_ready"
  by (simp add: dual_ok_def scenario_wf same_entries_def scenario_row_entries scenario_col_entries)


text \<open>
  C2. On an initialised matrix whose two halves are well formed and hold the same
  entries, \<open>Mul\<close> returns status 0 and \<open>y := alpha * op(A) * x + beta * y\<close>, where
  \<open>op(A)\<close> is the dense matrix \<open>A\<close> for \<open>n\<close>/\<open>N\<close> and its transpose for \<open>t\<close>/\<open>T\<close>. Without
  transposition the first \<open>n\<close> entries of \<open>x\<close> are read and the first \<open>m\<close> entries of
  \<open>y\<close> written; with transposition the first \<open>m\<close> of \<open>x\<close> and the first \<open>n\<close> of \<open>y\<close>.
\<close>

theorem C2_mul_gemv:
  assumes "dual_ok A"
  shows "(tr = CHR ''n'' \<or> tr = CHR ''N'' \<longrightarrow> Cols A \<le> length x \<longrightarrow> Rows A \<le> length y \<longrightarrow>
            Mul b A tr alpha x beta y
            = Inr (0, map (\<lambda>i. alpha * sum_list (map (\<lambda>j. dense A i j * x ! j) [0..<Cols A])
                               + beta * y ! i) [0..<Rows A] @ drop (Rows A) y))
       \<and> (tr = CHR ''t'' \<or> tr = CHR ''T'' \<longrightarrow> Rows A \<le> length x \<longrightarrow> Cols A \<le> length y \<longrightarrow>
            Mul b A tr alpha x beta y
            = Inr (0, map (\<lambda>j. alpha * sum_list (map (\<lambda>i. dense A i j * x ! i) [0..<Rows A])
                               + beta * y ! j) [0..<Cols A] @ drop (Cols A) y))"
proof (intro conjI impI)
  assume "tr = CHR ''n'' \<or> tr = CHR ''N''"
  then show "Mul b A tr alpha x beta y
            = Inr (0, map (\<lambda>i. alpha * sum_list (map (\<lambda>j. dense A i j * x ! j) [0..<Cols A])
                               + beta * y ! i) [0..<Rows A] @ drop (Rows A) y)"
    by (rule Mul_notrans [OF assms])
next
  assume "tr = CHR ''t'' \<or> tr = CHR ''T''"
  then show "Mul b A tr alpha x beta y
            = Inr (0, map (\<lambda>j. alpha * sum_list (map (\<lambda>i. dense A i j * x ! i) [0..<Rows A])
                               + beta * y ! j) [0..<Cols A] @ drop (Cols A) y)"
    by (rule Mul_trans [OF assms])
qed

lemma scenario_dims: "Rows scenario_ready = 2" "Cols scenario_ready = 2"
  by (simp_all add: scenario_ready_def scenario_raw_def)

lemma scenario_dense:
  "dense scenario_ready 0 0 = 4" "dense scenario_ready 0 (Suc 0) = 2"
  "dense scenario_ready (Suc 0) 0 = 0" "dense scenario_ready (Suc 0) (Suc 0) = 3"
  by (simp_all add: dense_def scenario_row_entries)

theorem C2_mul_gemv_witness:
  "dual_ok scenario_ready
   \<and> Mul Release scenario_ready (CHR ''n'') 2 [1, 2] 3 [5, 7] = Inr (0, [31, 33])
   \<and> Mul Release scenario_ready (CHR ''T'') 2 [1, 2] 3 [5, 7] = Inr (0, [23, 37])"
  using C2_mul_gemv [OF scenario_ready_ok, of "CHR ''n''" "[1, 2]" "[5, 7]" Release 2 3]
    C2_mul_gemv [OF scenario_ready_ok, of "CHR ''T''" "[1, 2]" "[5, 7]" Release 2 3]
  by (simp add: scenario_ready_ok scenario_dims scenario_dense upt_conv_Cons eval_nat_numeral)

subsection \<open>Init builds both halves\<close>

lemma count_fold:
  "j < length c \<Longrightarrow>
   length (fold (\<lambda>k cnt. cnt[ind ! k := cnt ! (ind ! k) + 1]) ks c) = length c
   \<and> fold (\<lambda>k cnt. cnt[ind ! k := cnt ! (ind ! k) + 1]) ks c ! j
     = c ! j + key_count (\<lambda>k. ind ! k) j ks"
  by (induction ks arbitrary: c) (auto simp: key_count_def nth_list_update)

lemma count_buckets_nth:
  "j < s \<Longrightarrow> count_buckets ind nnz s ! j = key_count (\<lambda>k. ind ! k) j [0..<nnz]"
  using count_fold [of j "replicate s 0" ind "[0..<nnz]"] by (simp add: count_buckets_def)

lemma length_count_buckets: "length (count_buckets ind nnz s) = s"
proof (cases s)
  case 0
  then show ?thesis by (simp add: count_buckets_def) (induction nnz, simp_all)
next
  case (Suc s')
  then show ?thesis
    using count_fold [of 0 "replicate s 0" ind "[0..<nnz]"] by (simp add: count_buckets_def)
qed

lemma length_prefix_sum [simp]: "length (prefix_sum a cs) = Suc (length cs)"
  by (induction cs arbitrary: a) simp_all

lemma prefix_sum_nth: "j \<le> length cs \<Longrightarrow> prefix_sum a cs ! j = a + sum_list (take j cs)"
proof (induction cs arbitrary: a j)
  case Nil
  then show ?case by simp
next
  case (Cons c cs)
  then show ?case by (cases j) (simp_all add: add.assoc)
qed

lemma prefix_sum_step:
  "j < length cs \<Longrightarrow> prefix_sum a cs ! Suc j = prefix_sum a cs ! j + cs ! j"
  by (simp add: prefix_sum_nth take_Suc_conv_app_nth)

lemma key_count_total:
  "(\<And>e. e \<in> set es \<Longrightarrow> key e < s) \<Longrightarrow>
   sum_list (map (\<lambda>j. key_count key j es) [0..<s]) = length es"
proof (induction es)
  case Nil
  then show ?case by (simp add: key_count_def)
next
  case (Cons e es)
  have k: "key e < s" using Cons.prems by simp
  have "sum_list (map (\<lambda>j. key_count key j (e # es)) [0..<s])
        = sum_list (map (\<lambda>j. (if key e = j then 1 else 0) + key_count key j es) [0..<s])"
    by (intro arg_cong [where f = sum_list] map_cong) (auto simp: key_count_def)
  also have "\<dots> = sum_list (map (\<lambda>j. if key e = j then 1 else 0) [0..<s])
                   + sum_list (map (\<lambda>j. key_count key j es) [0..<s])"
    by (simp add: sum_list_addf)
  also have "sum_list (map (\<lambda>j. if key e = j then 1 else 0) [0..<s]) = (1::nat)"
    using k by (simp add: interv_sum_list_conv_sum_set_nat)
  finally show ?case
    using Cons by simp
qed

lemma fold_buckets:
  "fold (\<lambda>t. fold (f t) (r t)) ts = fold (\<lambda>(t, k). f t k) (concat (map (\<lambda>t. map (Pair t) (r t)) ts))"
  by (induction ts) (simp_all add: fold_map comp_def)

lemma scatter_flat:
  "scatter p val ind ptr = fold (\<lambda>(t, k). scatter_step val ind t k) (bucket_pos ptr 0 p)"
  unfolding scatter_def bucket_pos_def
  using fold_buckets [of "scatter_step val ind" "\<lambda>t. [ptr ! t..<ptr ! (t + 1)]" "[0..<p]"]
  by simp

lemma scatter_place:
  "fold (\<lambda>(t, k). scatter_step val ind t k) ps (nxt, oval, oind)
   = (fst (fold (place (\<lambda>(t, k). ind ! k) (\<lambda>(t, k). val ! k)) ps (nxt, oval)),
      snd (fold (place (\<lambda>(t, k). ind ! k) (\<lambda>(t, k). val ! k)) ps (nxt, oval)),
      snd (fold (place (\<lambda>(t, k). ind ! k) (\<lambda>(t, k). t)) ps (nxt, oind)))
   \<and> fst (fold (place (\<lambda>(t, k). ind ! k) (\<lambda>(t, k). val ! k)) ps (nxt, oval))
     = fst (fold (place (\<lambda>(t, k). ind ! k) (\<lambda>(t, k). t)) ps (nxt, oind))"
proof (induction ps arbitrary: nxt oval oind)
  case Nil
  then show ?case by simp
next
  case (Cons e ps)
  obtain t k where e: "e = (t, k)" by (cases e)
  show ?case
    using Cons [of "nxt[ind ! k := nxt ! (ind ! k) + 1]" "oval[nxt ! (ind ! k) := val ! k]"
        "oind[nxt ! (ind ! k) := t]"]
    by (simp add: e scatter_step_def place_def)
qed


lemma place_fold:
  fixes key :: "'e \<Rightarrow> nat" and g :: "'e \<Rightarrow> 'a"
  assumes "\<And>e. e \<in> set ps \<Longrightarrow> key e < length nxt"
    and "\<And>j. j < length nxt \<Longrightarrow> nxt ! j + key_count key j ps \<le> length out"
    and "\<And>j j'. j < j' \<Longrightarrow> j' < length nxt \<Longrightarrow> nxt ! j + key_count key j ps \<le> nxt ! j'"
  shows "length (snd (fold (place key g) ps (nxt, out))) = length out
    \<and> (\<forall>j<length nxt. \<forall>r<key_count key j ps.
          snd (fold (place key g) ps (nxt, out)) ! (nxt ! j + r) = g (filter (\<lambda>e. key e = j) ps ! r))
    \<and> (\<forall>q. (\<forall>j<length nxt. q < nxt ! j \<or> nxt ! j + key_count key j ps \<le> q)
          \<longrightarrow> snd (fold (place key g) ps (nxt, out)) ! q = out ! q)"
  using assms
proof (induction ps arbitrary: nxt out)
  case Nil
  then show ?case by (simp add: key_count_def)
next
  case (Cons e ps)
  define j0 where "j0 = key e"
  define nxt1 where "nxt1 = nxt[j0 := nxt ! j0 + 1]"
  define out1 where "out1 = out[nxt ! j0 := g e]"
  let ?res = "snd (fold (place key g) ps (nxt1, out1))"
  have fold_eq: "fold (place key g) (e # ps) (nxt, out) = fold (place key g) ps (nxt1, out1)"
    by (simp add: place_def nxt1_def out1_def j0_def)
  have j0n: "j0 < length nxt"
    using Cons.prems(1) [of e] by (simp add: j0_def)
  have cnt0: "key_count key j0 (e # ps) = Suc (key_count key j0 ps)"
    by (simp add: key_count_def j0_def)
  have cnt: "j \<noteq> j0 \<Longrightarrow> key_count key j (e # ps) = key_count key j ps" for j
    by (auto simp: key_count_def j0_def)
  have n0: "nxt1 ! j0 = Suc (nxt ! j0)"
    using j0n by (simp add: nxt1_def)
  have n1: "j \<noteq> j0 \<Longrightarrow> nxt1 ! j = nxt ! j" for j
    by (simp add: nxt1_def)
  have len1: "length nxt1 = length nxt" "length out1 = length out"
    by (simp_all add: nxt1_def out1_def)
  have end1: "nxt1 ! j + key_count key j ps = nxt ! j + key_count key j (e # ps)" for j
    by (cases "j = j0") (simp_all add: n0 n1 cnt0 cnt)
  have start1: "nxt ! j \<le> nxt1 ! j" for j
    by (cases "j = j0") (simp_all add: n0 n1)
  have room: "j < length nxt \<Longrightarrow> nxt ! j + key_count key j (e # ps) \<le> length out" for j
    using Cons.prems(2) by simp
  have sep: "j < j' \<Longrightarrow> j' < length nxt
             \<Longrightarrow> nxt ! j + key_count key j (e # ps) \<le> nxt ! j'" for j j'
    using Cons.prems(3) by simp
  have p0: "nxt ! j0 < length out"
    using room [OF j0n] cnt0 by simp
  have IH: "length ?res = length out1
    \<and> (\<forall>j<length nxt1. \<forall>r<key_count key j ps.
          ?res ! (nxt1 ! j + r) = g (filter (\<lambda>e. key e = j) ps ! r))
    \<and> (\<forall>q. (\<forall>j<length nxt1. q < nxt1 ! j \<or> nxt1 ! j + key_count key j ps \<le> q)
          \<longrightarrow> ?res ! q = out1 ! q)"
  proof (rule Cons.IH)
    show "key e' < length nxt1" if "e' \<in> set ps" for e'
      using Cons.prems(1) [of e'] that by (simp add: len1)
    show "nxt1 ! j + key_count key j ps \<le> length out1" if "j < length nxt1" for j
      using room [of j] that by (simp add: end1 len1)
    show "nxt1 ! j + key_count key j ps \<le> nxt1 ! j'" if "j < j'" "j' < length nxt1" for j j'
      using sep [of j j'] that start1 [of j'] by (simp add: end1 len1 le_trans)
  qed
  have get: "?res ! (nxt1 ! j + r) = g (filter (\<lambda>e. key e = j) ps ! r)"
    if "j < length nxt" "r < key_count key j ps" for j r
    using IH that by (simp add: len1)
  have keep: "?res ! q = out1 ! q"
    if "\<And>j. j < length nxt \<Longrightarrow> q < nxt1 ! j \<or> nxt1 ! j + key_count key j ps \<le> q" for q
    using IH that by (simp add: len1)
  have first: "?res ! (nxt ! j0) = g e"
  proof -
    have "?res ! (nxt ! j0) = out1 ! (nxt ! j0)"
    proof (rule keep)
      fix j assume j: "j < length nxt"
      consider "j = j0" | "j < j0" | "j0 < j" by linarith
      then show "nxt ! j0 < nxt1 ! j \<or> nxt1 ! j + key_count key j ps \<le> nxt ! j0"
      proof cases
        case 1
        then show ?thesis by (simp add: n0)
      next
        case 2
        then show ?thesis using sep [of j j0] j0n by (simp add: end1)
      next
        case 3
        then have "nxt ! j0 + key_count key j0 (e # ps) \<le> nxt ! j"
          using sep [of j0 j] j by simp
        then show ?thesis using 3 by (simp add: cnt0 n1)
      qed
    qed
    then show ?thesis using p0 by (simp add: out1_def)
  qed
  have A: "length ?res = length out"
    using IH by (simp add: len1)
  have B: "?res ! (nxt ! j + r) = g (filter (\<lambda>e. key e = j) (e # ps) ! r)"
    if j: "j < length nxt" and r: "r < key_count key j (e # ps)" for j r
  proof (cases "j = j0")
    case False
    then have "key e \<noteq> j" by (simp add: j0_def)
    then show ?thesis
      using get [of j r] j r False by (simp add: n1 cnt)
  next
    case True
    show ?thesis
    proof (cases r)
      case 0
      moreover have "key e = j0" by (simp add: j0_def)
      ultimately show ?thesis using first True by simp
    next
      case (Suc r')
      then have "r' < key_count key j0 ps" using r True by (simp add: cnt0)
      then have "?res ! (nxt1 ! j0 + r') = g (filter (\<lambda>e. key e = j0) ps ! r')"
        using get [of j0 r'] j0n by simp
      moreover have "key e = j0" by (simp add: j0_def)
      ultimately show ?thesis using True Suc by (simp add: n0)
    qed
  qed
  have C: "?res ! q = out ! q"
    if q: "\<And>j. j < length nxt \<Longrightarrow> q < nxt ! j \<or> nxt ! j + key_count key j (e # ps) \<le> q" for q
  proof -
    have "?res ! q = out1 ! q"
    proof (rule keep)
      fix j assume j: "j < length nxt"
      show "q < nxt1 ! j \<or> nxt1 ! j + key_count key j ps \<le> q"
        using q [OF j] start1 [of j] by (auto simp: end1)
    qed
    moreover have "q \<noteq> nxt ! j0"
      using q [OF j0n] by (auto simp: cnt0)
    ultimately show ?thesis by (simp add: out1_def)
  qed
  show ?case
    unfolding fold_eq using A B C by blast
qed


lemma mset_filter_keys_below:
  "mset (concat (map (\<lambda>j. filter (\<lambda>e. key e = j) xs) [0..<s]))
   = mset (filter (\<lambda>e. key e < (s::nat)) xs)"
proof (induction s)
  case 0
  then show ?case by simp
next
  case (Suc s)
  have "mset (filter (\<lambda>e. key e < s) xs) + mset (filter (\<lambda>e. key e = s) xs)
        = mset (filter (\<lambda>e. key e < Suc s) xs)"
    by (induction xs) (auto simp: less_Suc_eq)
  then show ?case using Suc by simp
qed

lemma mset_concat_filter_keys:
  "(\<And>e. e \<in> set xs \<Longrightarrow> key e < (s::nat)) \<Longrightarrow>
   mset (concat (map (\<lambda>j. filter (\<lambda>e. key e = j) xs) [0..<s])) = mset xs"
  by (simp add: mset_filter_keys_below)

lemma half_entries_pos:
  "half_entries data doff ind ioff ptr poff sz
   = map (\<lambda>(t, k). (t, ind ! (ioff + k), data ! (doff + k))) (bucket_pos ptr poff sz)"
  by (simp add: half_entries_def bucket_pos_def map_concat comp_def)

lemma bucket_pos_snd:
  "wf_half ptr poff sz len ind ioff sec \<Longrightarrow> map snd (bucket_pos ptr poff sz) = [0..<len]"
proof -
  assume wf: "wf_half ptr poff sz len ind ioff sec"
  have "map snd (bucket_pos ptr poff sz)
        = concat (map (\<lambda>t. [ptr ! (poff + t)..<ptr ! (poff + t + 1)]) [0..<sz])"
    by (simp add: bucket_pos_def map_concat comp_def)
  also have "\<dots> = [0..<ptr ! (poff + sz)]"
    using bucket_ranges [OF wf, of sz] by simp
  finally show ?thesis using wf by (simp add: wf_half_def)
qed

lemma bucket_pos_fst: "(t, k) \<in> set (bucket_pos ptr poff sz) \<Longrightarrow> t < sz"
  by (auto simp: bucket_pos_def)

lemma region_exists:
  "off ! 0 = (0::nat) \<Longrightarrow> (\<And>j. j < s \<Longrightarrow> off ! j \<le> off ! Suc j) \<Longrightarrow> q < off ! s
   \<Longrightarrow> (\<exists>j. j < s \<and> off ! j \<le> q \<and> q < off ! Suc j)"
proof (induction s)
  case 0
  then show ?case by simp
next
  case (Suc s)
  show ?case
  proof (cases "q < off ! s")
    case True
    then obtain j where "j < s" "off ! j \<le> q \<and> q < off ! Suc j"
      using Suc.IH Suc.prems by auto
    then show ?thesis by (intro exI [of _ j]) simp
  next
    case False
    then show ?thesis using Suc.prems(3) by (intro exI [of _ s]) simp
  qed
qed

lemma map_nth_shift:
  "map (\<lambda>i. f (F ! (i - a))) [a..<a + length F] = map f F"
proof -
  have "[a..<a + length F] = map (\<lambda>r. r + a) [0..<length F]"
    by (simp add: map_add_upt add.commute)
  then have "map (\<lambda>i. f (F ! (i - a))) [a..<a + length F] = map (\<lambda>r. f (F ! r)) [0..<length F]"
    by (simp add: comp_def)
  also have "\<dots> = map f (map (\<lambda>r. F ! r) [0..<length F])"
    by (simp add: comp_def)
  finally show ?thesis by (simp add: map_nth)
qed


lemma convert_half_ok:
  assumes wf: "wf_half ptr 0 p nnz ind 0 s"
  shows "case convert_half p s nnz val ind ptr of
           (oval, oind, off) \<Rightarrow>
             length oval = nnz \<and> length oind = nnz \<and> length off = s + 1
             \<and> wf_half off 0 s nnz oind 0 p
             \<and> mset (half_entries oval 0 oind 0 off 0 s)
               = mset (map (\<lambda>(t, j, v). (j, t, v)) (half_entries val 0 ind 0 ptr 0 p))"
proof -
  define key :: "nat \<times> nat \<Rightarrow> nat" where "key = (\<lambda>(t, k). ind ! k)"
  define gv :: "nat \<times> nat \<Rightarrow> real" where "gv = (\<lambda>(t, k). val ! k)"
  define gt :: "nat \<times> nat \<Rightarrow> nat" where "gt = (\<lambda>(t, k). t)"
  define bl where "bl = bucket_pos ptr 0 p"
  define cnts where "cnts = count_buckets ind nnz s"
  define off where "off = prefix_sum 0 cnts"
  define V where "V = snd (fold (place key gv) bl (off, replicate nnz 0))"
  define I where "I = snd (fold (place key gt) bl (off, replicate nnz 0))"
  have snd_bl: "map snd bl = [0..<nnz]"
    using bucket_pos_snd [OF wf] by (simp add: bl_def)
  have key_lt: "key e < s" if "e \<in> set bl" for e
  proof -
    have "snd e \<in> set (map snd bl)" using that by simp
    then have "snd e < nnz" by (simp add: snd_bl)
    then show ?thesis using wf_half_ind [OF wf, of "snd e"] by (simp add: key_def split_def)
  qed
  have fst_lt: "fst e < p" if "e \<in> set bl" for e
    using that bucket_pos_fst [of "fst e" "snd e" ptr 0 p] by (simp add: bl_def)
  have kc: "key_count key j bl = key_count (\<lambda>k. ind ! k) j [0..<nnz]" for j
  proof -
    have "filter (\<lambda>k. ind ! k = j) (map snd bl) = map snd (filter (\<lambda>e. key e = j) bl)"
      by (simp add: filter_map comp_def key_def split_def)
    then have "length (filter (\<lambda>k. ind ! k = j) [0..<nnz]) = length (filter (\<lambda>e. key e = j) bl)"
      by (simp add: snd_bl)
    then show ?thesis by (simp add: key_count_def)
  qed
  have len_cnts: "length cnts = s"
    by (simp add: cnts_def length_count_buckets)
  have cnts_nth: "cnts ! j = key_count key j bl" if "j < s" for j
    using that by (simp add: cnts_def count_buckets_nth kc)
  have len_off: "length off = s + 1"
    by (simp add: off_def len_cnts)
  have off0: "off ! 0 = 0"
    by (simp add: off_def prefix_sum_nth)
  have off_step: "off ! Suc j = off ! j + key_count key j bl" if "j < s" for j
    using that prefix_sum_step [of j cnts 0] by (simp add: off_def len_cnts cnts_nth)
  have off_s: "off ! s = nnz"
  proof -
    have "off ! s = sum_list cnts"
      using prefix_sum_nth [of s cnts 0] by (simp add: off_def len_cnts)
    also have "sum_list cnts = sum_list (map (\<lambda>j. cnts ! j) [0..<s])"
      using map_nth [of cnts] by (simp add: len_cnts)
    also have "\<dots> = sum_list (map (\<lambda>j. key_count key j bl) [0..<s])"
      by (intro arg_cong [where f = sum_list] map_cong) (simp_all add: cnts_nth)
    also have "\<dots> = length bl"
      by (rule key_count_total) (rule key_lt)
    also have "length bl = nnz"
      using arg_cong [OF snd_bl, of length] by simp
    finally show ?thesis .
  qed
  have off_mono: "off ! j \<le> off ! j'" if "j \<le> j'" "j' \<le> s" for j j'
    using that
  proof (induction j')
    case 0
    then show ?case by simp
  next
    case (Suc j')
    then show ?case
      by (cases "j = Suc j'") (simp_all add: off_step le_Suc_eq trans_le_add1)
  qed
  have kc_s: "key_count key s bl = 0"
    using key_lt by (auto simp: key_count_def filter_empty_conv)
  have room: "off ! j + key_count key j bl \<le> nnz" if "j < length off" for j
  proof (cases "j = s")
    case True
    then show ?thesis by (simp add: kc_s off_s)
  next
    case False
    then have j: "j < s" using that by (simp add: len_off)
    then have "off ! j + key_count key j bl = off ! Suc j" by (simp add: off_step)
    also have "\<dots> \<le> off ! s" using j by (intro off_mono) simp_all
    finally show ?thesis by (simp add: off_s)
  qed
  have sep: "off ! j + key_count key j bl \<le> off ! j'" if "j < j'" "j' < length off" for j j'
  proof -
    have j: "j < s" using that by (simp add: len_off)
    then have "off ! j + key_count key j bl = off ! Suc j" by (simp add: off_step)
    also have "\<dots> \<le> off ! j'" using that by (intro off_mono) (simp_all add: len_off)
    finally show ?thesis .
  qed
  have keys: "key e < length off" if "e \<in> set bl" for e
    using key_lt [OF that] by (simp add: len_off)
  have PV: "length V = nnz
    \<and> (\<forall>j<length off. \<forall>r<key_count key j bl. V ! (off ! j + r) = gv (filter (\<lambda>e. key e = j) bl ! r))"
    using place_fold [of bl key off "replicate nnz (0::real)" gv] keys room sep
    by (simp add: V_def)
  have PI: "length I = nnz
    \<and> (\<forall>j<length off. \<forall>r<key_count key j bl. I ! (off ! j + r) = gt (filter (\<lambda>e. key e = j) bl ! r))"
    using place_fold [of bl key off "replicate nnz (0::nat)" gt] keys room sep
    by (simp add: I_def)
  have conv: "convert_half p s nnz val ind ptr = (V, I, off)"
  proof -
    have "scatter p val ind ptr (off, replicate nnz 0, replicate nnz 0)
          = (fst (fold (place key gv) bl (off, replicate nnz 0)), V, I)"
      using scatter_place [of val ind bl off "replicate nnz 0" "replicate nnz 0"]
      by (simp add: scatter_flat bl_def V_def I_def key_def gv_def gt_def)
    then show ?thesis
      by (simp add: convert_half_def off_def cnts_def Let_def)
  qed
  have bucket: "map (\<lambda>i. (j, I ! i, V ! i)) [off ! j..<off ! Suc j]
                = map (\<lambda>e. (key e, gt e, gv e)) (filter (\<lambda>e. key e = j) bl)" if j: "j < s" for j
  proof -
    let ?F = "filter (\<lambda>e. key e = j) bl"
    have c: "length ?F = key_count key j bl" by (simp add: key_count_def)
    have jl: "j < length off" using j by (simp add: len_off)
    have "map (\<lambda>i. (j, I ! i, V ! i)) [off ! j..<off ! j + length ?F]
          = map (\<lambda>i. (\<lambda>e. (j, gt e, gv e)) (?F ! (i - off ! j))) [off ! j..<off ! j + length ?F]"
    proof (intro map_cong refl)
      fix i assume "i \<in> set [off ! j..<off ! j + length ?F]"
      then obtain r where r: "i = off ! j + r" "r < key_count key j bl"
        using c by (metis atLeastLessThan_iff le_Suc_ex nat_add_left_cancel_less set_upt)
      then show "(j, I ! i, V ! i) = (j, gt (?F ! (i - off ! j)), gv (?F ! (i - off ! j)))"
        using PV PI jl by simp
    qed
    also have "\<dots> = map (\<lambda>e. (j, gt e, gv e)) ?F"
      by (rule map_nth_shift)
    also have "\<dots> = map (\<lambda>e. (key e, gt e, gv e)) ?F"
      by (intro map_cong refl) simp
    finally show ?thesis
      using j by (simp add: off_step c)
  qed
  have entries: "half_entries V 0 I 0 off 0 s
                 = map (\<lambda>e. (key e, gt e, gv e)) (concat (map (\<lambda>j. filter (\<lambda>e. key e = j) bl) [0..<s]))"
  proof -
    have "half_entries V 0 I 0 off 0 s
          = concat (map (\<lambda>j. map (\<lambda>i. (j, I ! i, V ! i)) [off ! j..<off ! (j + 1)]) [0..<s])"
      by (simp add: half_entries_def)
    also have "\<dots> = concat (map (\<lambda>j. map (\<lambda>e. (key e, gt e, gv e)) (filter (\<lambda>e. key e = j) bl)) [0..<s])"
      by (intro arg_cong [where f = concat] map_cong refl) (simp add: bucket)
    finally show ?thesis
      by (simp add: map_concat comp_def)
  qed
  have orig: "map (\<lambda>(t, j, v). (j, t, v)) (half_entries val 0 ind 0 ptr 0 p)
              = map (\<lambda>e. (key e, gt e, gv e)) bl"
    by (simp add: half_entries_pos bl_def key_def gt_def gv_def split_def)
  have ms: "mset (half_entries V 0 I 0 off 0 s)
            = mset (map (\<lambda>(t, j, v). (j, t, v)) (half_entries val 0 ind 0 ptr 0 p))"
  proof -
    have "mset (concat (map (\<lambda>j. filter (\<lambda>e. key e = j) bl) [0..<s])) = mset bl"
      by (rule mset_concat_filter_keys) (rule key_lt)
    then show ?thesis
      unfolding entries orig by (simp only: mset_map)
  qed
  have I_lt: "I ! q < p" if q: "q < nnz" for q
  proof -
    obtain j where j: "j < s" "off ! j \<le> q" "q < off ! Suc j"
      using region_exists [of off s q] off0 off_step q by (auto simp: off_s)
    define r where "r = q - off ! j"
    have r: "q = off ! j + r" "r < key_count key j bl"
      using j by (simp_all add: r_def off_step)
    then have "I ! q = gt (filter (\<lambda>e. key e = j) bl ! r)"
      using PI j(1) by (simp add: len_off)
    moreover have "filter (\<lambda>e. key e = j) bl ! r \<in> set bl"
      using r(2) nth_mem [of r "filter (\<lambda>e. key e = j) bl"] by (auto simp: key_count_def)
    ultimately show ?thesis
      using fst_lt by (simp add: gt_def split_def)
  qed
  have wf2: "wf_half off 0 s nnz I 0 p"
    using off0 off_s I_lt off_step by (simp add: wf_half_def list_all_iff)
  show ?thesis
    using PV PI len_off wf2 ms by (simp add: conv)
qed


lemma wf_half_cong:
  assumes wf: "wf_half ptr poff sz len ind ioff sec"
    and P: "\<And>t. t \<le> sz \<Longrightarrow> ptr' ! (poff' + t) = ptr ! (poff + t)"
    and I: "\<And>k. k < len \<Longrightarrow> ind' ! (ioff' + k) = ind ! (ioff + k)"
  shows "wf_half ptr' poff' sz len ind' ioff' sec"
proof -
  have "ptr' ! poff' = ptr ! poff" using P [of 0] by simp
  moreover have "ptr' ! (poff' + t + 1) = ptr ! (poff + t + 1)" if "t < sz" for t
    using P [of "t + 1"] that by (simp add: add.assoc)
  ultimately show ?thesis
    using wf P I by (simp add: wf_half_def list_all_iff)
qed

lemma half_entries_cong:
  assumes wf: "wf_half ptr poff sz len ind ioff sec"
    and P: "\<And>t. t \<le> sz \<Longrightarrow> ptr' ! (poff' + t) = ptr ! (poff + t)"
    and I: "\<And>k. k < len \<Longrightarrow> ind' ! (ioff' + k) = ind ! (ioff + k)"
    and D: "\<And>k. k < len \<Longrightarrow> data' ! (doff' + k) = data ! (doff + k)"
  shows "half_entries data' doff' ind' ioff' ptr' poff' sz = half_entries data doff ind ioff ptr poff sz"
proof -
  have bk: "map (\<lambda>i. (t, ind' ! (ioff' + i), data' ! (doff' + i))) [ptr' ! (poff' + t)..<ptr' ! (poff' + t + 1)]
        = map (\<lambda>i. (t, ind ! (ioff + i), data ! (doff + i))) [ptr ! (poff + t)..<ptr ! (poff + t + 1)]"
    if t: "t < sz" for t
  proof -
    have lo: "ptr' ! (poff' + t) = ptr ! (poff + t)"
      using P [of t] t by simp
    have hi: "ptr' ! (poff' + t + 1) = ptr ! (poff + t + 1)"
      using P [of "t + 1"] t by (simp add: add.assoc)
    have le: "ptr ! (poff + t + 1) \<le> len"
      using wf_half_le_len [OF wf, of "t + 1"] t by (simp add: add.assoc)
    show ?thesis
      unfolding lo hi
      by (intro map_cong refl) (use le I D in auto)
  qed
  have "map (\<lambda>t. map (\<lambda>i. (t, ind' ! (ioff' + i), data' ! (doff' + i)))
                        [ptr' ! (poff' + t)..<ptr' ! (poff' + t + 1)]) [0..<sz]
             = map (\<lambda>t. map (\<lambda>i. (t, ind ! (ioff + i), data ! (doff + i)))
                        [ptr ! (poff + t)..<ptr ! (poff + t + 1)]) [0..<sz]"
    by (rule map_cong [OF refl], rule bk, simp)
  then show ?thesis
    unfolding half_entries_def by (rule arg_cong)
qed

lemma swap_swap: "map (\<lambda>(t, j, v). (j, t, v)) (map (\<lambda>(t, j, v). (j, t, v)) es) = (es :: (nat \<times> nat \<times> real) list)"
  by (induction es) auto

lemma mset_swap:
  fixes X E :: "(nat \<times> nat \<times> real) list"
  assumes "mset X = mset (map (\<lambda>(t, j, v). (j, t, v)) E)"
  shows "mset (map (\<lambda>(t, j, v). (j, t, v)) X) = mset E"
proof -
  have "mset (map (\<lambda>(t, j, v). (j, t, v)) X) = image_mset (\<lambda>(t, j, v). (j, t, v)) (mset X)"
    by simp
  also have "\<dots> = image_mset (\<lambda>(t, j, v). (j, t, v)) (mset (map (\<lambda>(t, j, v). (j, t, v)) E))"
    by (simp only: assms)
  also have "\<dots> = mset (map (\<lambda>(t, j, v). (j, t, v)) (map (\<lambda>(t, j, v). (j, t, v)) E))"
    by (simp only: mset_map)
  finally show ?thesis
    by (simp only: swap_swap)
qed

lemma spmat_memcpy_ok:
  assumes wf: "wf_half ptr 0 p nnz ind 0 s"
    and len: "nnz \<le> length val" "nnz \<le> length ind" "p + 1 \<le> length ptr"
    and ord: "p = (if order = CblasRowMajor then m else n)" "s = (if order = CblasRowMajor then n else m)"
  shows "case spmat_memcpy order m n nnz val ind ptr of
           (D, I, P) \<Rightarrow>
             length D = 2 * nnz \<and> length I = 2 * nnz \<and> length P = p + s + 2
             \<and> wf_half P 0 p nnz I 0 s \<and> wf_half P (p + 1) s nnz I nnz p
             \<and> half_entries D 0 I 0 P 0 p = half_entries val 0 ind 0 ptr 0 p
             \<and> mset (half_entries D nnz I nnz P (p + 1) s)
               = mset (map (\<lambda>(t, j, v). (j, t, v)) (half_entries val 0 ind 0 ptr 0 p))"
proof -
  let ?val = "take nnz val" and ?ind = "take nnz ind" and ?ptr = "take (p + 1) ptr"
  have l1: "length ?val = nnz" "length ?ind = nnz" "length ?ptr = p + 1"
    using len by simp_all
  have wf1: "wf_half ?ptr 0 p nnz ?ind 0 s"
    by (rule wf_half_cong [OF wf]) simp_all
  have e1: "half_entries ?val 0 ?ind 0 ?ptr 0 p = half_entries val 0 ind 0 ptr 0 p"
    by (rule half_entries_cong [OF wf]) simp_all
  obtain V I off where c: "convert_half p s nnz ?val ?ind ?ptr = (V, I, off)"
    by (cases "convert_half p s nnz ?val ?ind ?ptr") auto
  have ok: "length V = nnz" "length I = nnz" "length off = s + 1"
    "wf_half off 0 s nnz I 0 p"
    "mset (half_entries V 0 I 0 off 0 s)
     = mset (map (\<lambda>(t, j, v). (j, t, v)) (half_entries ?val 0 ?ind 0 ?ptr 0 p))"
    using convert_half_ok [OF wf1, where val = ?val] unfolding c by simp_all
  have res: "spmat_memcpy order m n nnz val ind ptr = (?val @ V, ?ind @ I, ?ptr @ off)"
    using c ord by (simp add: spmat_memcpy_def Let_def)
  have w1: "wf_half (?ptr @ off) 0 p nnz (?ind @ I) 0 s"
    by (rule wf_half_cong [OF wf1]) (use len in \<open>simp_all add: nth_append\<close>)
  have w2: "wf_half (?ptr @ off) (p + 1) s nnz (?ind @ I) nnz p"
    by (rule wf_half_cong [OF ok(4)]) (use len in \<open>simp_all add: nth_append\<close>)
  have h1: "half_entries (?val @ V) 0 (?ind @ I) 0 (?ptr @ off) 0 p
            = half_entries ?val 0 ?ind 0 ?ptr 0 p"
    by (rule half_entries_cong [OF wf1]) (use len in \<open>simp_all add: nth_append\<close>)
  have h2: "half_entries (?val @ V) nnz (?ind @ I) nnz (?ptr @ off) (p + 1) s
            = half_entries V 0 I 0 off 0 s"
    by (rule half_entries_cong [OF ok(4)]) (use len in \<open>simp_all add: nth_append\<close>)
  have h1': "half_entries (?val @ V) 0 (?ind @ I) 0 (?ptr @ off) 0 p
             = half_entries val 0 ind 0 ptr 0 p"
    using h1 unfolding e1 .
  have m2: "mset (half_entries (?val @ V) nnz (?ind @ I) nnz (?ptr @ off) (p + 1) s)
            = mset (map (\<lambda>(t, j, v). (j, t, v)) (half_entries val 0 ind 0 ptr 0 p))"
    using ok(5) unfolding h2 e1 .
  have lens: "length (?val @ V) = 2 * nnz" "length (?ind @ I) = 2 * nnz"
    "length (?ptr @ off) = p + s + 2"
    using l1 ok by simp_all
  show ?thesis
    unfolding res prod.case using lens w1 w2 h1' m2 by blast
qed


lemma Init_ok:
  assumes "wf_input A"
  shows "case Init b A of
           Inl err \<Rightarrow> False
         | Inr (st, A') \<Rightarrow>
             st = 0 \<and> dual_ok A'
             \<and> Rows A' = Rows A \<and> Cols A' = Cols A \<and> Nnz A' = Nnz A \<and> M_ord A' = M_ord A
             \<and> (if M_ord A = ROW then row_entries A' else col_entries A') = input_entries A"
proof -
  let ?val = "orig_data (info A)" and ?ind = "orig_ind (info A)" and ?ptr = "orig_ptr (info A)"
  define order where "order = (if M_ord A = ROW then CblasRowMajor else CblasColMajor)"
  define p where "p = (if M_ord A = ROW then Rows A else Cols A)"
  define s where "s = (if M_ord A = ROW then Cols A else Rows A)"
  have ni: "\<not> done_init A" and len: "Nnz A \<le> length ?val" "Nnz A \<le> length ?ind"
    "p + 1 \<le> length ?ptr" and wf: "wf_half ?ptr 0 p (Nnz A) ?ind 0 s"
    using assms by (auto simp: wf_input_def p_def s_def split: if_splits)
  have ord: "p = (if order = CblasRowMajor then Rows A else Cols A)"
    "s = (if order = CblasRowMajor then Cols A else Rows A)"
    by (simp_all add: p_def s_def order_def)
  obtain D I P where c: "spmat_memcpy order (Rows A) (Cols A) (Nnz A) ?val ?ind ?ptr = (D, I, P)"
    by (cases "spmat_memcpy order (Rows A) (Cols A) (Nnz A) ?val ?ind ?ptr") auto
  have ok: "length D = 2 * Nnz A" "length I = 2 * Nnz A" "length P = p + s + 2"
    "wf_half P 0 p (Nnz A) I 0 s" "wf_half P (p + 1) s (Nnz A) I (Nnz A) p"
    "half_entries D 0 I 0 P 0 p = half_entries ?val 0 ?ind 0 ?ptr 0 p"
    "mset (half_entries D (Nnz A) I (Nnz A) P (p + 1) s)
     = mset (map (\<lambda>(t, j, v). (j, t, v)) (half_entries ?val 0 ?ind 0 ?ptr 0 p))"
    using spmat_memcpy_ok [OF wf len ord] unfolding c by simp_all
  define A' where "A' = A\<lparr>done_init := True, Data := D, Ind := I, Ptr := P\<rparr>"
  have init: "Init b A = Inr (0, A')"
    using ni c by (cases b) (auto simp: Init_def DEBUG_ASSERT_def ASSERT_def A'_def order_def)
  have sel: "Rows A' = Rows A" "Cols A' = Cols A" "Nnz A' = Nnz A" "M_ord A' = M_ord A"
    "Data A' = D" "Ind A' = I" "Ptr A' = P" "done_init A'"
    by (simp_all add: A'_def)
  have wfm: "wf_matrix A'"
    using ok(1-5) by (cases "M_ord A = ROW") (simp_all add: wf_matrix_def sel p_def s_def)
  have prim: "(if M_ord A = ROW then row_entries A' else col_entries A') = input_entries A"
    using ok(6)
    by (cases "M_ord A = ROW") (simp_all add: row_entries_def col_entries_def input_entries_def sel p_def)
  have same: "same_entries A'"
  proof (cases "M_ord A = ROW")
    case True
    have "mset (map (\<lambda>(t, j, v). (j, t, v)) (half_entries D (Nnz A) I (Nnz A) P (p + 1) s))
          = mset (half_entries ?val 0 ?ind 0 ?ptr 0 p)"
      by (rule mset_swap [OF ok(7)])
    then have "mset (col_entries A') = mset (row_entries A')"
      using ok(6) True
      by (simp add: row_entries_def col_entries_def sel p_def s_def)
    then show ?thesis by (simp add: same_entries_def)
  next
    case False
    then show ?thesis
      using ok(6,7)
      by (simp add: same_entries_def row_entries_def col_entries_def sel p_def s_def)
  qed
  show ?thesis
    using wfm same prim by (simp add: init dual_ok_def sel)
qed

subsection \<open>Diagonal scaling and entry-wise transforms\<close>

lemma fold_update_pos:
  fixes h :: "nat \<Rightarrow> nat \<Rightarrow> real \<Rightarrow> real"
  assumes "distinct (map snd ps)" and "\<And>e. e \<in> set ps \<Longrightarrow> doff + snd e < length x"
  shows "length (fold (\<lambda>(t, i) x. x[doff + i := h t i (x ! (doff + i))]) ps x) = length x
    \<and> (\<forall>e\<in>set ps. fold (\<lambda>(t, i) x. x[doff + i := h t i (x ! (doff + i))]) ps x ! (doff + snd e)
                     = h (fst e) (snd e) (x ! (doff + snd e)))
    \<and> (\<forall>k. (\<forall>e\<in>set ps. k \<noteq> doff + snd e)
          \<longrightarrow> fold (\<lambda>(t, i) x. x[doff + i := h t i (x ! (doff + i))]) ps x ! k = x ! k)"
  using assms
proof (induction ps arbitrary: x)
  case Nil
  then show ?case by simp
next
  case (Cons a ps)
  obtain t i where a: "a = (t, i)" by (cases a)
  define x1 where "x1 = x[doff + i := h t i (x ! (doff + i))]"
  let ?res = "fold (\<lambda>(t, i) x. x[doff + i := h t i (x ! (doff + i))]) ps x1"
  have fold_eq: "fold (\<lambda>(t, i) x. x[doff + i := h t i (x ! (doff + i))]) (a # ps) x = ?res"
    by (simp add: a x1_def)
  have len1: "length x1 = length x" by (simp add: x1_def)
  have i_in: "doff + i < length x" using Cons.prems(2) [of a] by (simp add: a)
  have i_new: "e \<in> set ps \<Longrightarrow> snd e \<noteq> i" for e
    using Cons.prems(1) by (auto simp: a)
  have IH: "length ?res = length x1
    \<and> (\<forall>e\<in>set ps. ?res ! (doff + snd e) = h (fst e) (snd e) (x1 ! (doff + snd e)))
    \<and> (\<forall>k. (\<forall>e\<in>set ps. k \<noteq> doff + snd e) \<longrightarrow> ?res ! k = x1 ! k)"
    by (rule Cons.IH) (use Cons.prems in \<open>simp_all add: len1\<close>)
  have keep: "?res ! k = x1 ! k" if "\<And>e. e \<in> set ps \<Longrightarrow> k \<noteq> doff + snd e" for k
    using IH that by blast
  have A: "length ?res = length x" using IH by (simp add: len1)
  have B: "?res ! (doff + snd e) = h (fst e) (snd e) (x ! (doff + snd e))" if "e \<in> set (a # ps)" for e
  proof (cases "e \<in> set ps")
    case True
    then have "?res ! (doff + snd e) = h (fst e) (snd e) (x1 ! (doff + snd e))"
      using IH by blast
    then show ?thesis using i_new [OF True] by (simp add: x1_def)
  next
    case False
    then have e: "e = (t, i)" using that by (simp add: a)
    have "?res ! (doff + i) = x1 ! (doff + i)"
      by (rule keep) (use i_new in auto)
    then show ?thesis using i_in by (simp add: e x1_def)
  qed
  have C: "?res ! k = x ! k" if "\<And>e. e \<in> set (a # ps) \<Longrightarrow> k \<noteq> doff + snd e" for k
  proof -
    have "?res ! k = x1 ! k" using IH that by simp
    moreover have "k \<noteq> doff + i" using that [of a] by (simp add: a)
    ultimately show ?thesis by (simp add: x1_def)
  qed
  show ?case
    unfolding fold_eq using A B C by blast
qed

lemma bucket_update:
  fixes h :: "nat \<Rightarrow> nat \<Rightarrow> real \<Rightarrow> real"
  assumes wf: "wf_half ptr poff sz len ind ioff sec" and len: "doff + len \<le> length data"
  defines "res \<equiv> fold (\<lambda>t. fold (\<lambda>i x. x[doff + i := h t i (x ! (doff + i))])
                              [ptr ! (poff + t)..<ptr ! (poff + t + 1)]) [0..<sz] data"
  shows "length res = length data"
    and "half_entries res doff ind ioff ptr poff sz
         = map (\<lambda>(t, k). (t, ind ! (ioff + k), h t k (data ! (doff + k)))) (bucket_pos ptr poff sz)"
    and "k < doff \<or> doff + len \<le> k \<Longrightarrow> res ! k = data ! k"
proof -
  let ?bl = "bucket_pos ptr poff sz"
  have flat: "res = fold (\<lambda>(t, i) x. x[doff + i := h t i (x ! (doff + i))]) ?bl data"
    unfolding res_def bucket_pos_def
    using fold_buckets [of "\<lambda>t i x. x[doff + i := h t i (x ! (doff + i))]"
        "\<lambda>t. [ptr ! (poff + t)..<ptr ! (poff + t + 1)]" "[0..<sz]"]
    by simp
  have snd_bl: "map snd ?bl = [0..<len]"
    by (rule bucket_pos_snd [OF wf])
  have in_len: "snd e < len" if "e \<in> set ?bl" for e
  proof -
    have "snd e \<in> set (map snd ?bl)" using that by simp
    then show ?thesis by (simp add: snd_bl)
  qed
  have U: "length res = length data
    \<and> (\<forall>e\<in>set ?bl. res ! (doff + snd e) = h (fst e) (snd e) (data ! (doff + snd e)))
    \<and> (\<forall>k. (\<forall>e\<in>set ?bl. k \<noteq> doff + snd e) \<longrightarrow> res ! k = data ! k)"
    unfolding flat
  proof (rule fold_update_pos)
    show "distinct (map snd ?bl)" by (simp add: snd_bl)
    show "doff + snd e < length data" if "e \<in> set ?bl" for e
      using in_len [OF that] len by simp
  qed
  show "length res = length data" using U by simp
  show "half_entries res doff ind ioff ptr poff sz
        = map (\<lambda>(t, k). (t, ind ! (ioff + k), h t k (data ! (doff + k)))) ?bl"
    unfolding half_entries_pos
    by (rule map_cong [OF refl]) (use U in auto)
  show "res ! k = data ! k" if "k < doff \<or> doff + len \<le> k"
  proof -
    have "k \<noteq> doff + snd e" if "e \<in> set ?bl" for e
      using in_len [OF that] \<open>k < doff \<or> doff + len \<le> k\<close> by auto
    then show ?thesis using U by simp
  qed
qed


lemma MultRow_half:
  assumes wf: "wf_half ptr poff sz len ind ioff sec" and len: "doff + len \<le> length data"
  shows "length (MultRow d e data doff ptr poff ind ioff sz) = length data"
    and "half_entries (MultRow d e data doff ptr poff ind ioff sz) doff ind ioff ptr poff sz
         = map (\<lambda>(t, j, v). (t, j, v * (d ! t * e ! j))) (half_entries data doff ind ioff ptr poff sz)"
    and "k < doff \<or> doff + len \<le> k \<Longrightarrow> MultRow d e data doff ptr poff ind ioff sz ! k = data ! k"
  unfolding MultRow_def
  using bucket_update [OF wf len, where h = "\<lambda>t i v. v * (d ! t * e ! (ind ! (ioff + i)))"]
  by (simp_all add: half_entries_pos [of data] split_def)

lemma MultCol_half:
  assumes wf: "wf_half ptr poff sz len ind ioff sec" and len: "doff + len \<le> length data"
  shows "length (MultCol d e data doff ptr poff ind ioff sz) = length data"
    and "half_entries (MultCol d e data doff ptr poff ind ioff sz) doff ind ioff ptr poff sz
         = map (\<lambda>(t, j, v). (t, j, v * (d ! j * e ! t))) (half_entries data doff ind ioff ptr poff sz)"
    and "k < doff \<or> doff + len \<le> k \<Longrightarrow> MultCol d e data doff ptr poff ind ioff sz ! k = data ! k"
  unfolding MultCol_def
  using bucket_update [OF wf len, where h = "\<lambda>t i v. v * (d ! (ind ! (ioff + i)) * e ! t)"]
  by (simp_all add: half_entries_pos [of data] split_def)

lemma half_entries_data_cong:
  assumes wf: "wf_half ptr poff sz len ind ioff sec"
    and D: "\<And>k. k < len \<Longrightarrow> data' ! (doff + k) = data ! (doff + k)"
  shows "half_entries data' doff ind ioff ptr poff sz = half_entries data doff ind ioff ptr poff sz"
  by (rule half_entries_cong [OF wf]) (simp_all add: D)

lemma swap_scale_col:
  "map (\<lambda>(c, r, v). (r, c, v)) (map (\<lambda>(t, j, v). (t, j, v * (d ! j * e ! t))) es)
   = map (scale_entry d e) (map (\<lambda>(c, r, v). (r, c, v)) es)"
  by (induction es) (auto simp: scale_entry_def)

lemma scale_row: "map (\<lambda>(t, j, v). (t, j, v * (d ! t * e ! j))) es = map (scale_entry d e) es"
  by (simp add: scale_entry_def)

lemma row_entries_upd:
  "row_entries (A\<lparr>Data := x\<rparr>)
   = (if M_ord A = ROW
      then half_entries x 0 (Ind A) 0 (Ptr A) 0 (Rows A)
      else half_entries x (Nnz A) (Ind A) (Nnz A) (Ptr A) (Cols A + 1) (Rows A))"
  by (simp add: row_entries_def)

lemma col_entries_upd:
  "col_entries (A\<lparr>Data := x\<rparr>)
   = map (\<lambda>(c, r, v). (r, c, v))
       (if M_ord A = ROW
        then half_entries x (Nnz A) (Ind A) (Nnz A) (Ptr A) (Rows A + 1) (Cols A)
        else half_entries x 0 (Ind A) 0 (Ptr A) 0 (Cols A))"
  by (simp add: col_entries_def)

lemma MultDiag_entries:
  fixes d e :: "real list"
  assumes wf: "wf_matrix A"
  defines "x \<equiv> MultDiag d e (Rows A) (Cols A) (Nnz A) (M_ord A) (Data A) (Ind A) (Ptr A)"
  shows "length x = length (Data A)"
    and "row_entries (A\<lparr>Data := x\<rparr>) = map (scale_entry d e) (row_entries A)"
    and "col_entries (A\<lparr>Data := x\<rparr>) = map (scale_entry d e) (col_entries A)"
proof -
  have len: "length (Data A) = 2 * Nnz A"
    using wf by (simp add: wf_matrix_def)
  have "length x = length (Data A)
    \<and> row_entries (A\<lparr>Data := x\<rparr>) = map (scale_entry d e) (row_entries A)
    \<and> col_entries (A\<lparr>Data := x\<rparr>) = map (scale_entry d e) (col_entries A)"
  proof (cases "M_ord A = ROW")
    case True
    have w1: "wf_half (Ptr A) 0 (Rows A) (Nnz A) (Ind A) 0 (Cols A)"
      and w2: "wf_half (Ptr A) (Rows A + 1) (Cols A) (Nnz A) (Ind A) (Nnz A) (Rows A)"
      using wf True by (simp_all add: wf_matrix_def)
    let ?y = "MultRow d e (Data A) 0 (Ptr A) 0 (Ind A) 0 (Rows A)"
    have x: "x = MultCol d e ?y (Nnz A) (Ptr A) (Rows A + 1) (Ind A) (Nnz A) (Cols A)"
      using True by (simp add: x_def MultDiag_def)
    have l1: "0 + Nnz A \<le> length (Data A)"
      by (simp add: len)
    have ly: "length ?y = length (Data A)"
      by (rule MultRow_half(1) [OF w1 l1])
    have l2: "Nnz A + Nnz A \<le> length ?y"
      by (simp add: ly len)
    have L: "length x = length (Data A)"
      unfolding x using MultCol_half(1) [OF w2 l2] ly by simp
    have "half_entries x 0 (Ind A) 0 (Ptr A) 0 (Rows A)
          = half_entries ?y 0 (Ind A) 0 (Ptr A) 0 (Rows A)"
      unfolding x
      by (rule half_entries_data_cong [OF w1]) (use MultCol_half(3) [OF w2 l2] in simp)
    also have "\<dots> = map (\<lambda>(t, j, v). (t, j, v * (d ! t * e ! j)))
                        (half_entries (Data A) 0 (Ind A) 0 (Ptr A) 0 (Rows A))"
      by (rule MultRow_half(2) [OF w1 l1])
    finally have R0: "half_entries x 0 (Ind A) 0 (Ptr A) 0 (Rows A)
                      = map (scale_entry d e) (half_entries (Data A) 0 (Ind A) 0 (Ptr A) 0 (Rows A))"
      by (simp only: scale_row)
    have RA: "row_entries A = (if M_ord A = ROW
      then half_entries (Data A) 0 (Ind A) 0 (Ptr A) 0 (Rows A)
      else half_entries (Data A) (Nnz A) (Ind A) (Nnz A) (Ptr A) (Cols A + 1) (Rows A))"
      by (simp only: row_entries_def)
    have R: "row_entries (A\<lparr>Data := x\<rparr>) = map (scale_entry d e) (row_entries A)"
      unfolding row_entries_upd RA by (simp only: True if_True R0 simp_thms)
    have "half_entries x (Nnz A) (Ind A) (Nnz A) (Ptr A) (Rows A + 1) (Cols A)
          = map (\<lambda>(t, j, v). (t, j, v * (d ! j * e ! t)))
              (half_entries ?y (Nnz A) (Ind A) (Nnz A) (Ptr A) (Rows A + 1) (Cols A))"
      unfolding x by (rule MultCol_half(2) [OF w2 l2])
    also have "half_entries ?y (Nnz A) (Ind A) (Nnz A) (Ptr A) (Rows A + 1) (Cols A)
               = half_entries (Data A) (Nnz A) (Ind A) (Nnz A) (Ptr A) (Rows A + 1) (Cols A)"
      by (rule half_entries_data_cong [OF w2]) (use MultRow_half(3) [OF w1 l1] in simp)
    finally have C0: "half_entries x (Nnz A) (Ind A) (Nnz A) (Ptr A) (Rows A + 1) (Cols A)
          = map (\<lambda>(t, j, v). (t, j, v * (d ! j * e ! t)))
              (half_entries (Data A) (Nnz A) (Ind A) (Nnz A) (Ptr A) (Rows A + 1) (Cols A))" .
    have CA: "col_entries A = map (\<lambda>(c, r, v). (r, c, v)) (if M_ord A = ROW
      then half_entries (Data A) (Nnz A) (Ind A) (Nnz A) (Ptr A) (Rows A + 1) (Cols A)
      else half_entries (Data A) 0 (Ind A) 0 (Ptr A) 0 (Cols A))"
      by (simp only: col_entries_def)
    have C: "col_entries (A\<lparr>Data := x\<rparr>) = map (scale_entry d e) (col_entries A)"
      unfolding col_entries_upd CA by (simp only: True if_True C0 swap_scale_col simp_thms)
    show ?thesis using L R C by simp
  next
    case False
    have w1: "wf_half (Ptr A) 0 (Cols A) (Nnz A) (Ind A) 0 (Rows A)"
      and w2: "wf_half (Ptr A) (Cols A + 1) (Rows A) (Nnz A) (Ind A) (Nnz A) (Cols A)"
      using wf False by (simp_all add: wf_matrix_def)
    let ?y = "MultCol d e (Data A) 0 (Ptr A) 0 (Ind A) 0 (Cols A)"
    have x: "x = MultRow d e ?y (Nnz A) (Ptr A) (Cols A + 1) (Ind A) (Nnz A) (Rows A)"
      using False by (simp add: x_def MultDiag_def)
    have l1: "0 + Nnz A \<le> length (Data A)"
      by (simp add: len)
    have ly: "length ?y = length (Data A)"
      by (rule MultCol_half(1) [OF w1 l1])
    have l2: "Nnz A + Nnz A \<le> length ?y"
      by (simp add: ly len)
    have L: "length x = length (Data A)"
      unfolding x using MultRow_half(1) [OF w2 l2] ly by simp
    have "half_entries x 0 (Ind A) 0 (Ptr A) 0 (Cols A)
          = half_entries ?y 0 (Ind A) 0 (Ptr A) 0 (Cols A)"
      unfolding x
      by (rule half_entries_data_cong [OF w1]) (use MultRow_half(3) [OF w2 l2] in simp)
    also have "\<dots> = map (\<lambda>(t, j, v). (t, j, v * (d ! j * e ! t)))
                        (half_entries (Data A) 0 (Ind A) 0 (Ptr A) 0 (Cols A))"
      by (rule MultCol_half(2) [OF w1 l1])
    finally have C0: "half_entries x 0 (Ind A) 0 (Ptr A) 0 (Cols A)
          = map (\<lambda>(t, j, v). (t, j, v * (d ! j * e ! t)))
              (half_entries (Data A) 0 (Ind A) 0 (Ptr A) 0 (Cols A))" .
    have CA: "col_entries A = map (\<lambda>(c, r, v). (r, c, v)) (if M_ord A = ROW
      then half_entries (Data A) (Nnz A) (Ind A) (Nnz A) (Ptr A) (Rows A + 1) (Cols A)
      else half_entries (Data A) 0 (Ind A) 0 (Ptr A) 0 (Cols A))"
      by (simp only: col_entries_def)
    have C: "col_entries (A\<lparr>Data := x\<rparr>) = map (scale_entry d e) (col_entries A)"
      unfolding col_entries_upd CA by (simp only: False if_False C0 swap_scale_col)
    have "half_entries x (Nnz A) (Ind A) (Nnz A) (Ptr A) (Cols A + 1) (Rows A)
          = map (\<lambda>(t, j, v). (t, j, v * (d ! t * e ! j)))
              (half_entries ?y (Nnz A) (Ind A) (Nnz A) (Ptr A) (Cols A + 1) (Rows A))"
      unfolding x by (rule MultRow_half(2) [OF w2 l2])
    also have "half_entries ?y (Nnz A) (Ind A) (Nnz A) (Ptr A) (Cols A + 1) (Rows A)
               = half_entries (Data A) (Nnz A) (Ind A) (Nnz A) (Ptr A) (Cols A + 1) (Rows A)"
      by (rule half_entries_data_cong [OF w2]) (use MultCol_half(3) [OF w1 l1] in simp)
    finally have R0: "half_entries x (Nnz A) (Ind A) (Nnz A) (Ptr A) (Cols A + 1) (Rows A)
          = map (scale_entry d e)
              (half_entries (Data A) (Nnz A) (Ind A) (Nnz A) (Ptr A) (Cols A + 1) (Rows A))"
      by (simp only: scale_row)
    have RA: "row_entries A = (if M_ord A = ROW
      then half_entries (Data A) 0 (Ind A) 0 (Ptr A) 0 (Rows A)
      else half_entries (Data A) (Nnz A) (Ind A) (Nnz A) (Ptr A) (Cols A + 1) (Rows A))"
      by (simp only: row_entries_def)
    have R: "row_entries (A\<lparr>Data := x\<rparr>) = map (scale_entry d e) (row_entries A)"
      unfolding row_entries_upd RA by (simp only: False if_False R0)
    show ?thesis using L R C by simp
  qed
  then show "length x = length (Data A)"
    and "row_entries (A\<lparr>Data := x\<rparr>) = map (scale_entry d e) (row_entries A)"
    and "col_entries (A\<lparr>Data := x\<rparr>) = map (scale_entry d e) (col_entries A)"
    by simp_all
qed


lemma half_entries_map:
  assumes wf: "wf_half ptr poff sz len ind ioff sec" and len: "doff + len \<le> length data"
  shows "half_entries (map g data) doff ind ioff ptr poff sz
         = map (map_entry g) (half_entries data doff ind ioff ptr poff sz)"
proof -
  have in_len: "snd e < len" if "e \<in> set (bucket_pos ptr poff sz)" for e
  proof -
    have "snd e \<in> set (map snd (bucket_pos ptr poff sz))" using that by simp
    then show ?thesis by (simp add: bucket_pos_snd [OF wf])
  qed
  have "map (\<lambda>(t, k). (t, ind ! (ioff + k), map g data ! (doff + k))) (bucket_pos ptr poff sz)
        = map (\<lambda>(t, k). map_entry g (t, ind ! (ioff + k), data ! (doff + k))) (bucket_pos ptr poff sz)"
    by (rule map_cong [OF refl]) (use in_len len in \<open>fastforce simp: map_entry_def\<close>)
  then show ?thesis
    by (simp add: half_entries_pos comp_def split_def)
qed

lemma map_entries:
  assumes wf: "wf_matrix A"
  shows "row_entries (A\<lparr>Data := map g (Data A)\<rparr>) = map (map_entry g) (row_entries A)"
    and "col_entries (A\<lparr>Data := map g (Data A)\<rparr>) = map (map_entry g) (col_entries A)"
proof -
  have len: "0 + Nnz A \<le> length (Data A)" "Nnz A + Nnz A \<le> length (Data A)"
    using wf by (simp_all add: wf_matrix_def)
  have sw: "map (\<lambda>(c, r, v). (r, c, v)) (map (map_entry g) es)
            = map (map_entry g) (map (\<lambda>(c, r, v). (r, c, v)) es)" for es
    by (induction es) (auto simp: map_entry_def)
  show "row_entries (A\<lparr>Data := map g (Data A)\<rparr>) = map (map_entry g) (row_entries A)"
  proof (cases "M_ord A = ROW")
    case True
    then have "wf_half (Ptr A) 0 (Rows A) (Nnz A) (Ind A) 0 (Cols A)"
      using wf by (simp add: wf_matrix_def)
    from half_entries_map [OF this len(1), of g] show ?thesis
      using True by (simp add: row_entries_def)
  next
    case False
    then have "wf_half (Ptr A) (Cols A + 1) (Rows A) (Nnz A) (Ind A) (Nnz A) (Cols A)"
      using wf by (simp add: wf_matrix_def)
    from half_entries_map [OF this len(2), of g] show ?thesis
      using False by (simp add: row_entries_def)
  qed
  show "col_entries (A\<lparr>Data := map g (Data A)\<rparr>) = map (map_entry g) (col_entries A)"
  proof (cases "M_ord A = ROW")
    case True
    then have w: "wf_half (Ptr A) (Rows A + 1) (Cols A) (Nnz A) (Ind A) (Nnz A) (Rows A)"
      using wf by (simp add: wf_matrix_def)
    have "col_entries (A\<lparr>Data := map g (Data A)\<rparr>)
          = map (\<lambda>(c, r, v). (r, c, v))
              (half_entries (map g (Data A)) (Nnz A) (Ind A) (Nnz A) (Ptr A) (Rows A + 1) (Cols A))"
      by (simp only: col_entries_upd True if_True simp_thms)
    also have "\<dots> = map (map_entry g) (map (\<lambda>(c, r, v). (r, c, v))
              (half_entries (Data A) (Nnz A) (Ind A) (Nnz A) (Ptr A) (Rows A + 1) (Cols A)))"
      by (simp only: half_entries_map [OF w len(2)] sw)
    also have "\<dots> = map (map_entry g) (col_entries A)"
      by (simp only: col_entries_def True if_True simp_thms)
    finally show ?thesis .
  next
    case False
    then have w: "wf_half (Ptr A) 0 (Cols A) (Nnz A) (Ind A) 0 (Rows A)"
      using wf by (simp add: wf_matrix_def)
    have "col_entries (A\<lparr>Data := map g (Data A)\<rparr>)
          = map (\<lambda>(c, r, v). (r, c, v)) (half_entries (map g (Data A)) 0 (Ind A) 0 (Ptr A) 0 (Cols A))"
      by (simp only: col_entries_upd False if_False)
    also have "\<dots> = map (map_entry g) (map (\<lambda>(c, r, v). (r, c, v))
              (half_entries (Data A) 0 (Ind A) 0 (Ptr A) 0 (Cols A)))"
      by (simp only: half_entries_map [OF w len(1)] sw)
    also have "\<dots> = map (map_entry g) (col_entries A)"
      by (simp only: col_entries_def False if_False)
    finally show ?thesis .
  qed
qed

lemma wf_matrix_Data:
  "wf_matrix A \<Longrightarrow> length x = length (Data A) \<Longrightarrow> wf_matrix (A\<lparr>Data := x\<rparr>)"
  by (cases "M_ord A = ROW") (simp_all add: wf_matrix_def)

lemma same_entries_map:
  assumes "same_entries A"
    and "row_entries A' = map f (row_entries A)" and "col_entries A' = map f (col_entries A)"
  shows "same_entries A'"
proof -
  have "mset (map f (row_entries A)) = mset (map f (col_entries A))"
    using assms(1) by (simp add: same_entries_def)
  then show ?thesis
    by (simp only: same_entries_def assms(2,3))
qed

lemma vector_scale_all: "length a \<le> len \<Longrightarrow> vector_scale a len c = map (\<lambda>v. v * c) a"
  by (simp add: vector_scale_def)

lemma half_values:
  assumes wf: "wf_half ptr poff sz len ind ioff sec" and len: "doff + len \<le> length data"
  shows "map (\<lambda>(t, j, v). v) (half_entries data doff ind ioff ptr poff sz) = take len (drop doff data)"
proof -
  have "map (\<lambda>(t, j, v). v) (half_entries data doff ind ioff ptr poff sz)
        = map (\<lambda>k. data ! (doff + k)) (map snd (bucket_pos ptr poff sz))"
    by (simp add: half_entries_pos comp_def split_def)
  also have "\<dots> = map (\<lambda>k. data ! (doff + k)) [0..<len]"
    by (simp only: bucket_pos_snd [OF wf])
  also have "\<dots> = take len (drop doff data)"
    by (rule nth_equalityI) (use len in auto)
  finally show ?thesis .
qed

lemma blas_nrm2_nonneg: "0 \<le> blas_nrm2 a"
  unfolding blas_nrm2_def by (intro real_sqrt_ge_zero sum_list_nonneg) auto

lemma blas_nrm2_pos: "v \<in> set a \<Longrightarrow> v \<noteq> 0 \<Longrightarrow> 0 < blas_nrm2 a"
proof -
  assume v: "v \<in> set a" "v \<noteq> 0"
  have "0 < v * v" using v(2) by (simp add: zero_less_mult_iff) linarith
  moreover have "v * v \<le> sum_list (map (\<lambda>v. v * v) a)"
    using v(1) by (intro member_le_sum_list) auto
  ultimately show ?thesis by (simp add: blas_nrm2_def)
qed

lemma blas_nrm2_scale: "blas_nrm2 (map (\<lambda>v. v * c) a) = \<bar>c\<bar> * blas_nrm2 a"
proof -
  have "sum_list (map (\<lambda>v. (v * c) * (v * c)) a) = (c * c) * sum_list (map (\<lambda>v. v * v) a)"
    by (induction a) (simp_all add: algebra_simps)
  then show ?thesis
    by (simp add: blas_nrm2_def comp_def real_sqrt_mult)
qed

lemma blas_nrm2_mset: "mset a = mset b \<Longrightarrow> blas_nrm2 a = blas_nrm2 b"
proof -
  assume "mset a = mset b"
  then have "mset (map (\<lambda>v. v * v) a) = mset (map (\<lambda>v. v * v) b)"
    by (simp only: mset_map)
  then have "sum_list (map (\<lambda>v. v * v) a) = sum_list (map (\<lambda>v. v * v) b)"
    by (metis sum_mset_sum_list)
  then show ?thesis by (simp add: blas_nrm2_def)
qed

subsection \<open>Equil, the norm estimate and the two halves\<close>

lemma Equil_2norm_eq:
  "Equil b SinkhornKnopp Norm2Est A d e = Equil_2norm b SinkhornKnopp Norm2Est A d e"
  by (simp add: Equil_def Equil_2norm_def kNormEquilibrate_def kNormNormalize_def Let_def
      split: sum.split prod.split)

lemma restore_extract:
  "RestoreWithSign (map (\<lambda>a. a * a) v) (sign_bytes v) SqrtF = Inr v"
proof -
  let ?x = "map (\<lambda>a. apply_F SquareF \<bar>a\<bar>) v"
  have "RestoreWithSign ?x (sign_bytes v) SqrtF
        = Inr (restore_range SqrtF (sign_bytes v) 0 (length ?x) ?x)"
    by (rule RestoreWithSign_eq) simp
  then have "RestoreWithSign ?x (sign_bytes v) SqrtF = Inr v"
    using restore_square [of v] by simp
  then show ?thesis by simp
qed

lemma Equil_unfold:
  assumes init: "done_init A" and len: "length (Data A) = 2 * Nnz A"
  shows "Equil b SinkhornKnopp Norm2Est A d e
         = (case SinkhornKnopp (A\<lparr>Data := map (\<lambda>a. a * a) (Data A)\<rparr>) d e of
              (d1, e1) \<Rightarrow> Equil_scaled A d1 e1)"
proof -
  define ne where "ne = 2 * Nnz A"
  define nc where "nc = ne div 8"
  let ?X2 = "map (\<lambda>a. a * a) (Data A)" and ?SB = "sign_bytes (Data A)"
  obtain X1 S1 where f1: "SetSign (Data A) (replicate ((ne + 7) div 8) 0) nc SquareF = (X1, S1)"
    by (cases "SetSign (Data A) (replicate ((ne + 7) div 8) 0) nc SquareF") auto
  have "ExtractAndTransform (Data A) SquareF = (?X2, ?SB)"
    by (simp add: ExtractAndTransform_eq)
  then have f2: "(if nc * 8 < ne then SetSignSingle X1 (nc * 8) S1 nc (ne - nc * 8) SquareF
                  else (X1, S1)) = (?X2, ?SB)"
    unfolding ExtractAndTransform_def Let_def len ne_def [symmetric] nc_def [symmetric]
    by (simp only: f1 prod.case)
  have "RestoreWithSign ?X2 ?SB SqrtF = Inr (Data A)"
    by (rule restore_extract)
  then have f3: "(case UnSetSign ?X2 ?SB nc SqrtF of
                    Inl err \<Rightarrow> Inl err
                  | Inr x3 \<Rightarrow> if nc * 8 < ne
                      then UnSetSignSingle x3 (nc * 8) ?SB nc (ne - nc * 8) SqrtF
                      else Inr x3) = Inr (Data A)"
    unfolding RestoreWithSign_def Let_def length_map len ne_def [symmetric] nc_def [symmetric] .
  obtain X3 where u: "UnSetSign ?X2 ?SB nc SqrtF = Inr X3"
    and t: "(if nc * 8 < ne then UnSetSignSingle X3 (nc * 8) ?SB nc (ne - nc * 8) SqrtF
             else Inr X3) = Inr (Data A)"
    using f3 by (cases "UnSetSign ?X2 ?SB nc SqrtF") auto
  have "Equil_2norm b SinkhornKnopp Norm2Est A d e
        = (case SinkhornKnopp (A\<lparr>Data := ?X2\<rparr>) d e of (d1, e1) \<Rightarrow> Equil_scaled A d1 e1)"
    using init
    unfolding Equil_2norm_def Equil_scaled_def Let_def ne_def [symmetric] nc_def [symmetric]
      DEBUG_ASSERT_def ASSERT_def
    by (simp only: f1 prod.case f2 u t sum.case if_True if_False if_cancel simp_thms)
  then show ?thesis
    by (simp only: Equil_2norm_eq)
qed


lemma swap_values:
  "map (\<lambda>(r, c, v). v) (map (\<lambda>(c, r, v). (r, c, v)) es) = map (\<lambda>(t, j, v). v) (es :: (nat \<times> nat \<times> real) list)"
  by (induction es) auto

lemma first_half_values:
  assumes wf: "wf_matrix A"
  shows "map (\<lambda>(r, c, v). v) (if M_ord A = ROW then row_entries A else col_entries A)
         = take (Nnz A) (Data A)"
proof -
  have len: "0 + Nnz A \<le> length (Data A)"
    using wf by (simp add: wf_matrix_def)
  show ?thesis
  proof (cases "M_ord A = ROW")
    case True
    then have w: "wf_half (Ptr A) 0 (Rows A) (Nnz A) (Ind A) 0 (Cols A)"
      using wf by (simp add: wf_matrix_def)
    show ?thesis
      using half_values [OF w len] True by (simp add: row_entries_def)
  next
    case False
    then have w: "wf_half (Ptr A) 0 (Cols A) (Nnz A) (Ind A) 0 (Rows A)"
      using wf by (simp add: wf_matrix_def)
    have "map (\<lambda>(r, c, v). v) (col_entries A)
          = map (\<lambda>(t, j, v). v) (half_entries (Data A) 0 (Ind A) 0 (Ptr A) 0 (Cols A))"
      by (simp only: col_entries_def False if_False swap_values)
    then show ?thesis
      using half_values [OF w len] False by simp
  qed
qed

lemma row_values_mset:
  assumes "dual_ok A"
  shows "mset (map (\<lambda>(r, c, v). v) (row_entries A)) = mset (take (Nnz A) (Data A))"
proof -
  have wf: "wf_matrix A" and same: "mset (row_entries A) = mset (col_entries A)"
    using assms by (simp_all add: dual_ok_def same_entries_def)
  have "mset (map (\<lambda>(r, c, v). v) (row_entries A))
        = mset (map (\<lambda>(r, c, v). v) (if M_ord A = ROW then row_entries A else col_entries A))"
    using same by (simp only: mset_map) simp
  then show ?thesis
    by (simp only: first_half_values [OF wf])
qed

lemma norm_first_half:
  "dual_ok A \<Longrightarrow> blas_nrm2 (take (Nnz A) (Data A)) = blas_nrm2 (map (\<lambda>(r, c, v). v) (row_entries A))"
  by (rule blas_nrm2_mset) (simp only: row_values_mset)

lemma col_entries_bounds:
  "dual_ok A \<Longrightarrow> (r, c, v) \<in> set (col_entries A) \<Longrightarrow> r < Rows A \<and> c < Cols A"
proof -
  assume ok: "dual_ok A" and "(r, c, v) \<in> set (col_entries A)"
  moreover have "set (col_entries A) = set (row_entries A)"
    using ok by (metis dual_ok_def same_entries_def mset_eq_setD)
  ultimately show ?thesis
    using row_entries_bounds [of A r c v] by (simp add: dual_ok_def)
qed

lemma dual_ok_MultDiag:
  assumes "dual_ok A"
  shows "dual_ok (A\<lparr>Data := MultDiag d e (Rows A) (Cols A) (Nnz A) (M_ord A) (Data A) (Ind A) (Ptr A)\<rparr>)"
proof -
  have wf: "wf_matrix A" and same: "same_entries A"
    using assms by (simp_all add: dual_ok_def)
  show ?thesis
    unfolding dual_ok_def
    using wf_matrix_Data [OF wf MultDiag_entries(1) [OF wf]]
      same_entries_map [OF same MultDiag_entries(2) [OF wf] MultDiag_entries(3) [OF wf]]
    by blast
qed

lemma dual_ok_map:
  assumes "dual_ok A"
  shows "dual_ok (A\<lparr>Data := map g (Data A)\<rparr>)"
proof -
  have wf: "wf_matrix A" and same: "same_entries A"
    using assms by (simp_all add: dual_ok_def)
  have "wf_matrix (A\<lparr>Data := map g (Data A)\<rparr>)"
    by (rule wf_matrix_Data [OF wf]) simp
  then show ?thesis
    unfolding dual_ok_def
    using same_entries_map [OF same map_entries(1) [OF wf] map_entries(2) [OF wf]]
    by blast
qed

lemma Equil_scaled_Inr:
  assumes "Equil_scaled A d1 e1 = Inr (st, A', d', e')"
  shows "\<exists>d2 e2 c. A' = A\<lparr>Data := vector_scale
           (MultDiag d2 e2 (Rows A) (Cols A) (Nnz A) (M_ord A) (Data A) (Ind A) (Ptr A))
           (2 * Nnz A) c\<rparr>"
  using assms
  by (auto simp: Equil_scaled_def Let_def split: sum.splits)

lemma Equil_scaled_dual_ok:
  assumes ok: "dual_ok A" and eq: "Equil_scaled A d1 e1 = Inr (st, A', d', e')"
  shows "dual_ok A'"
proof -
  obtain d2 e2 c where A': "A' = A\<lparr>Data := vector_scale
           (MultDiag d2 e2 (Rows A) (Cols A) (Nnz A) (M_ord A) (Data A) (Ind A) (Ptr A))
           (2 * Nnz A) c\<rparr>"
    using Equil_scaled_Inr [OF eq] by blast
  let ?x5 = "MultDiag d2 e2 (Rows A) (Cols A) (Nnz A) (M_ord A) (Data A) (Ind A) (Ptr A)"
  have wf: "wf_matrix A" using ok by (simp add: dual_ok_def)
  have "length ?x5 = 2 * Nnz A"
    using MultDiag_entries(1) [OF wf, of d2 e2] wf by (simp add: wf_matrix_def)
  then have vs: "vector_scale ?x5 (2 * Nnz A) c = map (\<lambda>v. v * c) ?x5"
    by (simp add: vector_scale_all)
  have "dual_ok ((A\<lparr>Data := ?x5\<rparr>)\<lparr>Data := map (\<lambda>v. v * c) (Data (A\<lparr>Data := ?x5\<rparr>))\<rparr>)"
    by (rule dual_ok_map) (rule dual_ok_MultDiag [OF ok])
  then show ?thesis
    by (simp add: A' vs)
qed


text \<open>
  C6. A Frobenius request returns the 2-norm (the square root of the sum of squares) of
  the first \<open>nnz\<close> entries of the value buffer divided by \<open>sqrt(min(m, n))\<close>; with no
  row or no column the division is by zero. On a matrix whose halves hold the same
  entries this 2-norm is the 2-norm of the values of the row-compressed half.
\<close>

theorem C6_normest_frobenius:
  "NormEst Norm2Est kNormFro A
     = (if Rows A = 0 \<or> Cols A = 0 then Inl NonFinite
        else Inr (sqrt (sum_list (map (\<lambda>v. v * v) (take (Nnz A) (Data A))))
                  / sqrt (real (min (Rows A) (Cols A)))))
   \<and> (dual_ok A \<longrightarrow>
        blas_nrm2 (take (Nnz A) (Data A)) = blas_nrm2 (map (\<lambda>(r, c, v). v) (row_entries A)))"
proof -
  have "(sqrt (real (min (Rows A) (Cols A))) = 0) = (Rows A = 0 \<or> Cols A = 0)"
    by (auto simp: min_def)
  then show ?thesis
    using norm_first_half [of A] by (simp add: fdiv_def blas_nrm2_def)
qed

theorem C6_normest_frobenius_witness:
  "dual_ok scenario_ready
   \<and> NormEst Norm2Est_unused kNormFro scenario_ready = Inr (sqrt 29 / sqrt 2)
   \<and> blas_nrm2 (take (Nnz scenario_ready) (Data scenario_ready)) = blas_nrm2 [4, 2, 3]"
  using C6_normest_frobenius [of Norm2Est_unused scenario_ready] scenario_ready_ok
  by (simp add: scenario_row_entries scenario_dims) (simp add: scenario_ready_def scenario_raw_def)

lemma colcase_new:
  "MatrixSparse_new (CHR ''c'') 1 2 2 [1, 2] [0, 1, 2] [0, 0] = Inr colcase_raw"
  by (simp add: MatrixSparse_new_def ASSERT_def colcase_raw_def)

lemma colcase_init: "Init b colcase_raw = Inr (0, colcase_ready)"
  by (cases b)
    (simp_all add: Init_def DEBUG_ASSERT_def ASSERT_def colcase_raw_def colcase_ready_def
      spmat_memcpy_def convert_half_def count_buckets_def scatter_def scatter_step_def
      upt_conv_Cons Let_def eval_nat_numeral)

lemma scenario_wf_input: "wf_input scenario_raw"
  by (simp add: wf_input_def wf_half_def scenario_raw_def upt_conv_Cons eval_nat_numeral)


lemma Init_dual_ok:
  "wf_input A \<Longrightarrow> (case Init b A of Inl err \<Rightarrow> False | Inr (st, A') \<Rightarrow> st = 0 \<and> dual_ok A')"
  using Init_ok [of A b] by (auto split: sum.splits)

lemma extract_same_entries:
  assumes "dual_ok A"
  shows "same_entries (A\<lparr>Data := fst (ExtractAndTransform (Data A) SquareF)\<rparr>)"
  using dual_ok_map [OF assms, of "\<lambda>a. apply_F SquareF \<bar>a\<bar>"]
  by (simp add: ExtractAndTransform_eq dual_ok_def)

lemma extract_restore:
  "case ExtractAndTransform v SquareF of (x, sign) \<Rightarrow> RestoreWithSign x sign SqrtF = Inr v"
  using restore_extract [of v] by (simp add: ExtractAndTransform_eq)

lemma scale_same_entries:
  assumes "dual_ok A"
  shows "same_entries (A\<lparr>Data := vector_scale (Data A) (2 * Nnz A) c\<rparr>)"
proof -
  have "length (Data A) = 2 * Nnz A"
    using assms by (simp add: dual_ok_def wf_matrix_def)
  then have "vector_scale (Data A) (2 * Nnz A) c = map (\<lambda>v. v * c) (Data A)"
    by (simp add: vector_scale_all)
  then show ?thesis
    using dual_ok_map [OF assms, of "\<lambda>v. v * c"] by (simp add: dual_ok_def)
qed

lemma Equil_dual_ok:
  assumes ok: "dual_ok A" and eq: "Equil b SinkhornKnopp Norm2Est A d e = Inr (st, A', d', e')"
  shows "dual_ok A'"
proof -
  have init: "done_init A" and len: "length (Data A) = 2 * Nnz A"
    using ok by (simp_all add: dual_ok_def wf_matrix_def)
  obtain d1 e1 where sk: "SinkhornKnopp (A\<lparr>Data := map (\<lambda>a. a * a) (Data A)\<rparr>) d e = (d1, e1)"
    by (cases "SinkhornKnopp (A\<lparr>Data := map (\<lambda>a. a * a) (Data A)\<rparr>) d e") auto
  have "Equil_scaled A d1 e1 = Inr (st, A', d', e')"
    using eq unfolding Equil_unfold [OF init len] sk by simp
  then show ?thesis
    by (rule Equil_scaled_dual_ok [OF ok])
qed

text \<open>
  C4, as the code lays the halves out (the supplied orientation first). \<open>Init\<close> on
  well-formed input yields a matrix whose row-compressed and column-compressed halves
  are well formed and hold the same multiset of entries \<open>(row, col, value)\<close>. On such
  a matrix the halves still hold the same multiset after the sign extraction with
  the square, after the restoration (which gives back the buffer), after \<open>MultDiag\<close>,
  which multiplies the value of every entry of either half by \<open>d[row] * e[col]\<close>,
  after the rescaling of the whole buffer, and in every matrix that \<open>Equil\<close> returns.
\<close>

theorem C4_halves_agree:
  "(wf_input A0 \<longrightarrow>
      (case Init b A0 of Inl err \<Rightarrow> False | Inr (st, A') \<Rightarrow> st = 0 \<and> dual_ok A'))
   \<and> (dual_ok A \<longrightarrow>
        same_entries (A\<lparr>Data := fst (ExtractAndTransform (Data A) SquareF)\<rparr>)
      \<and> (case ExtractAndTransform (Data A) SquareF of
            (x, sign) \<Rightarrow> RestoreWithSign x sign SqrtF = Inr (Data A))
      \<and> row_entries (A\<lparr>Data := MultDiag d e (Rows A) (Cols A) (Nnz A) (M_ord A)
                                   (Data A) (Ind A) (Ptr A)\<rparr>)
          = map (scale_entry d e) (row_entries A)
      \<and> col_entries (A\<lparr>Data := MultDiag d e (Rows A) (Cols A) (Nnz A) (M_ord A)
                                   (Data A) (Ind A) (Ptr A)\<rparr>)
          = map (scale_entry d e) (col_entries A)
      \<and> same_entries (A\<lparr>Data := MultDiag d e (Rows A) (Cols A) (Nnz A) (M_ord A)
                                    (Data A) (Ind A) (Ptr A)\<rparr>)
      \<and> same_entries (A\<lparr>Data := vector_scale (Data A) (2 * Nnz A) c\<rparr>)
      \<and> (\<forall>st A' d' e'.
            Equil b SinkhornKnopp Norm2Est A d0 e0 = Inr (st, A', d', e') \<longrightarrow> dual_ok A'))"
proof (intro conjI impI allI)
  assume "wf_input A0"
  then show "case Init b A0 of Inl err \<Rightarrow> False | Inr (st, A') \<Rightarrow> st = 0 \<and> dual_ok A'"
    by (rule Init_dual_ok)
next
  assume ok: "dual_ok A"
  then have wf: "wf_matrix A" by (simp add: dual_ok_def)
  show "same_entries (A\<lparr>Data := fst (ExtractAndTransform (Data A) SquareF)\<rparr>)"
    by (rule extract_same_entries [OF ok])
  show "case ExtractAndTransform (Data A) SquareF of
          (x, sign) \<Rightarrow> RestoreWithSign x sign SqrtF = Inr (Data A)"
    by (rule extract_restore)
  show "row_entries (A\<lparr>Data := MultDiag d e (Rows A) (Cols A) (Nnz A) (M_ord A)
                                 (Data A) (Ind A) (Ptr A)\<rparr>)
        = map (scale_entry d e) (row_entries A)"
    by (rule MultDiag_entries(2) [OF wf])
  show "col_entries (A\<lparr>Data := MultDiag d e (Rows A) (Cols A) (Nnz A) (M_ord A)
                                 (Data A) (Ind A) (Ptr A)\<rparr>)
        = map (scale_entry d e) (col_entries A)"
    by (rule MultDiag_entries(3) [OF wf])
  show "same_entries (A\<lparr>Data := MultDiag d e (Rows A) (Cols A) (Nnz A) (M_ord A)
                                  (Data A) (Ind A) (Ptr A)\<rparr>)"
    using dual_ok_MultDiag [OF ok, of d e] by (simp add: dual_ok_def)
  show "same_entries (A\<lparr>Data := vector_scale (Data A) (2 * Nnz A) c\<rparr>)"
    by (rule scale_same_entries [OF ok])
next
  fix st A' d' e'
  assume "dual_ok A" and "Equil b SinkhornKnopp Norm2Est A d0 e0 = Inr (st, A', d', e')"
  then show "dual_ok A'"
    by (rule Equil_dual_ok)
qed

theorem C4_halves_agree_witness:
  "wf_input scenario_raw \<and> dual_ok scenario_ready
   \<and> Init Release scenario_raw = Inr (0, scenario_ready)
   \<and> row_entries (scenario_ready\<lparr>Data := MultDiag [2, 3] [5, 7] 2 2 3 ROW
         (Data scenario_ready) (Ind scenario_ready) (Ptr scenario_ready)\<rparr>)
       = [(0, 0, 40), (0, 1, 28), (1, 1, 63)]
   \<and> col_entries (scenario_ready\<lparr>Data := MultDiag [2, 3] [5, 7] 2 2 3 ROW
         (Data scenario_ready) (Ind scenario_ready) (Ptr scenario_ready)\<rparr>)
       = [(0, 0, 40), (0, 1, 28), (1, 1, 63)]"
proof -
  have sel: "Rows scenario_ready = 2" "Cols scenario_ready = 2" "Nnz scenario_ready = 3"
    "M_ord scenario_ready = ROW"
    by (simp_all add: scenario_ready_def scenario_raw_def)
  show ?thesis
    using C4_halves_agree [of scenario_raw Release scenario_ready "[2, 3]" "[5, 7]" 1
        SinkhornKnopp_ones Norm2Est_unused "[0, 0]" "[0, 0]"]
      scenario_wf_input scenario_ready_ok scenario_init [of Release]
    by (simp add: sel scenario_row_entries scenario_col_entries scale_entry_def)
qed

text \<open>
  C4 as stated places the row-compressed half at entries \<open>[0, nnz)\<close>. For a matrix
  declared column-ordered the code puts the column-compressed half there: read as the
  claim words it, the two halves of the initialised 1 by 2 matrix differ.
\<close>

theorem C4_layout_counterexample:
  "MatrixSparse_new (CHR ''c'') 1 2 2 [1, 2] [0, 1, 2] [0, 0] = Inr colcase_raw
   \<and> Init Release colcase_raw = Inr (0, colcase_ready)
   \<and> mset (spec_row_entries colcase_ready) \<noteq> mset (spec_col_entries colcase_ready)"
proof -
  have "spec_row_entries colcase_ready = [(0, 0, 1)]"
    by (simp add: spec_row_entries_def half_entries_def colcase_ready_def colcase_raw_def
        upt_conv_Cons eval_nat_numeral)
  moreover have "spec_col_entries colcase_ready = [(0, 1, 1), (1, 1, 2)]"
    by (simp add: spec_col_entries_def half_entries_def colcase_ready_def colcase_raw_def
        upt_conv_Cons eval_nat_numeral)
  ultimately show ?thesis
    using colcase_new colcase_init by simp
qed

subsection \<open>The contract of the equilibration\<close>

lemma transform_sqrt:
  "length d1 = m \<Longrightarrow> \<forall>v\<in>set d1. 0 \<le> v \<Longrightarrow> transform_F SqrtF d1 m = Inr (map sqrt d1)"
  by (simp add: transform_F_def list_all_iff)

lemma Equil_scaled_value:
  assumes ld: "length d1 = Rows A" and le: "length e1 = Cols A"
    and pd: "\<forall>v\<in>set d1. 0 \<le> v" and pe: "\<forall>v\<in>set e1. 0 \<le> v"
    and nz: "equil_normA A d1 e1 \<noteq> 0"
  shows "Equil_scaled A d1 e1
         = Inr (0, A\<lparr>Data := vector_scale
                     (MultDiag (map sqrt d1) (map sqrt e1) (Rows A) (Cols A) (Nnz A) (M_ord A)
                        (Data A) (Ind A) (Ptr A))
                     (2 * Nnz A) (1 / equil_normA A d1 e1)\<rparr>,
                vector_scale (map sqrt d1) (Rows A) (1 / sqrt (equil_normA A d1 e1)),
                vector_scale (map sqrt e1) (Cols A) (1 / sqrt (equil_normA A d1 e1)))"
    and "0 < equil_normA A d1 e1"
proof -
  let ?x5 = "MultDiag (map sqrt d1) (map sqrt e1) (Rows A) (Cols A) (Nnz A) (M_ord A)
               (Data A) (Ind A) (Ptr A)"
  have m0: "sqrt (real (min (Rows A) (Cols A))) \<noteq> 0"
    using nz by (auto simp: equil_normA_def)
  have "0 \<le> equil_normA A d1 e1"
    by (simp add: equil_normA_def blas_nrm2_nonneg)
  then show pos: "0 < equil_normA A d1 e1"
    using nz by simp
  have f: "fdiv (blas_nrm2 (take (Nnz A) ?x5)) (sqrt (real (min (Rows A) (Cols A))))
           = Inr (equil_normA A d1 e1)"
    using m0 by (simp add: fdiv_def equil_normA_def)
  have c: "fdiv 1 (equil_normA A d1 e1) = Inr (1 / equil_normA A d1 e1)"
    using nz by (simp add: fdiv_def)
  have c2: "inv_sqrt (equil_normA A d1 e1) = Inr (1 / sqrt (equil_normA A d1 e1))"
    using pos by (simp add: inv_sqrt_def fdiv_def)
  show "Equil_scaled A d1 e1
         = Inr (0, A\<lparr>Data := vector_scale ?x5 (2 * Nnz A) (1 / equil_normA A d1 e1)\<rparr>,
                vector_scale (map sqrt d1) (Rows A) (1 / sqrt (equil_normA A d1 e1)),
                vector_scale (map sqrt e1) (Cols A) (1 / sqrt (equil_normA A d1 e1)))"
    unfolding Equil_scaled_def Let_def
    by (simp only: transform_sqrt [OF ld pd] transform_sqrt [OF le pe] sum.case f c c2)
qed

lemma scale_entries_normalised:
  fixes d1 e1 :: "real list"
  assumes N: "0 < N"
    and b: "\<And>r c v. (r, c, v) \<in> set es \<Longrightarrow> r < length d1 \<and> c < length e1"
  shows "map (map_entry (\<lambda>v. v * (1 / N))) (map (scale_entry (map sqrt d1) (map sqrt e1)) es)
         = map (scale_entry (map (\<lambda>v. sqrt v / sqrt N) d1) (map (\<lambda>v. sqrt v / sqrt N) e1)) es"
proof -
  have sq: "sqrt N * sqrt N = N"
    using N by simp
  have "map_entry (\<lambda>v. v * (1 / N)) (scale_entry (map sqrt d1) (map sqrt e1) x)
        = scale_entry (map (\<lambda>v. sqrt v / sqrt N) d1) (map (\<lambda>v. sqrt v / sqrt N) e1) x"
    if "x \<in> set es" for x
  proof -
    obtain r c v where x: "x = (r, c, v)" by (cases x)
    have rc: "r < length d1" "c < length e1" using b that x by auto
    have "sqrt (d1 ! r) / sqrt N * (sqrt (e1 ! c) / sqrt N)
          = sqrt (d1 ! r) * sqrt (e1 ! c) / (sqrt N * sqrt N)"
      by simp
    then have "v * (sqrt (d1 ! r) * sqrt (e1 ! c)) * (1 / N)
          = v * (sqrt (d1 ! r) / sqrt N * (sqrt (e1 ! c) / sqrt N))"
      by (simp only: sq) simp
    then show ?thesis
      using rc by (simp add: x map_entry_def scale_entry_def)
  qed
  then show ?thesis by simp
qed


lemma Equil_result:
  assumes ok: "dual_ok A"
    and sk: "SinkhornKnopp (A\<lparr>Data := map (\<lambda>a. a * a) (Data A)\<rparr>) d e = (d1, e1)"
    and ld: "length d1 = Rows A" and le: "length e1 = Cols A"
    and pd: "\<forall>v\<in>set d1. 0 \<le> v" and pe: "\<forall>v\<in>set e1. 0 \<le> v"
    and nz: "equil_normA A d1 e1 \<noteq> 0"
  defines "N \<equiv> equil_normA A d1 e1"
  defines "x5 \<equiv> MultDiag (map sqrt d1) (map sqrt e1) (Rows A) (Cols A) (Nnz A) (M_ord A)
                   (Data A) (Ind A) (Ptr A)"
  defines "A1 \<equiv> A\<lparr>Data := map (\<lambda>v. v / N) x5\<rparr>"
  defines "D \<equiv> map (\<lambda>v. sqrt v / sqrt N) d1"
  defines "E \<equiv> map (\<lambda>v. sqrt v / sqrt N) e1"
  shows "Equil b SinkhornKnopp Norm2Est A d e = Inr (0, A1, D, E)"
    and "0 < N"
    and "row_entries A1 = map (scale_entry D E) (row_entries A)"
    and "col_entries A1 = map (scale_entry D E) (col_entries A)"
    and "NormEst Norm2Est kNormFro A1 = Inr 1"
    and "dual_ok A1"
proof -
  have wf: "wf_matrix A" using ok by (simp add: dual_ok_def)
  have init: "done_init A" and len: "length (Data A) = 2 * Nnz A"
    using wf by (simp_all add: wf_matrix_def)
  show pos: "0 < N"
    unfolding N_def by (rule Equil_scaled_value(2) [OF ld le pd pe nz])
  have lx: "length x5 = 2 * Nnz A"
    unfolding x5_def using MultDiag_entries(1) [OF wf] len by simp
  have vs: "vector_scale x5 (2 * Nnz A) (1 / N) = map (\<lambda>v. v / N) x5"
    using lx by (simp add: vector_scale_all)
  have vd: "vector_scale (map sqrt d1) (Rows A) (1 / sqrt N) = D"
    using ld by (simp add: vector_scale_all D_def)
  have ve: "vector_scale (map sqrt e1) (Cols A) (1 / sqrt N) = E"
    using le by (simp add: vector_scale_all E_def)
  have "Equil b SinkhornKnopp Norm2Est A d e = Equil_scaled A d1 e1"
    unfolding Equil_unfold [OF init len] sk by simp
  also have "\<dots> = Inr (0, A\<lparr>Data := vector_scale x5 (2 * Nnz A) (1 / N)\<rparr>,
                vector_scale (map sqrt d1) (Rows A) (1 / sqrt N),
                vector_scale (map sqrt e1) (Cols A) (1 / sqrt N))"
    unfolding N_def x5_def by (rule Equil_scaled_value(1) [OF ld le pd pe nz])
  finally show eq: "Equil b SinkhornKnopp Norm2Est A d e = Inr (0, A1, D, E)"
    by (simp only: vs vd ve A1_def)
  show "dual_ok A1"
    by (rule Equil_dual_ok [OF ok eq])
  let ?A5 = "A\<lparr>Data := x5\<rparr>"
  have wf5: "wf_matrix ?A5"
    by (rule wf_matrix_Data [OF wf]) (simp add: lx len)
  have A1': "A1 = ?A5\<lparr>Data := map (\<lambda>v. v * (1 / N)) (Data ?A5)\<rparr>"
    by (simp add: A1_def)
  have rb: "r < length d1 \<and> c < length e1" if "(r, c, v) \<in> set (row_entries A)" for r c v
    using row_entries_bounds [OF wf that] by (simp add: ld le)
  have cb: "r < length d1 \<and> c < length e1" if "(r, c, v) \<in> set (col_entries A)" for r c v
    using col_entries_bounds [OF ok that] by (simp add: ld le)
  have "row_entries A1 = map (map_entry (\<lambda>v. v * (1 / N))) (row_entries ?A5)"
    unfolding A1' by (rule map_entries(1) [OF wf5])
  also have "row_entries ?A5 = map (scale_entry (map sqrt d1) (map sqrt e1)) (row_entries A)"
    unfolding x5_def by (rule MultDiag_entries(2) [OF wf])
  finally show "row_entries A1 = map (scale_entry D E) (row_entries A)"
    unfolding D_def E_def using scale_entries_normalised [OF pos rb] by simp
  have "col_entries A1 = map (map_entry (\<lambda>v. v * (1 / N))) (col_entries ?A5)"
    unfolding A1' by (rule map_entries(2) [OF wf5])
  also have "col_entries ?A5 = map (scale_entry (map sqrt d1) (map sqrt e1)) (col_entries A)"
    unfolding x5_def by (rule MultDiag_entries(3) [OF wf])
  finally show "col_entries A1 = map (scale_entry D E) (col_entries A)"
    unfolding D_def E_def using scale_entries_normalised [OF pos cb] by simp
  have m0: "sqrt (real (min (Rows A) (Cols A))) \<noteq> 0"
    using nz by (auto simp: equil_normA_def)
  define s where "s = sqrt (real (min (Rows A) (Cols A)))"
  have s0: "s \<noteq> 0" using m0 by (simp add: s_def)
  have bN: "blas_nrm2 (take (Nnz A) x5) = N * s"
    using s0 by (simp add: N_def equil_normA_def x5_def s_def)
  have "map (\<lambda>v. v / N) x5 = map (\<lambda>v. v * (1 / N)) x5"
    by simp
  then have "blas_nrm2 (take (Nnz A) (map (\<lambda>v. v / N) x5))
        = \<bar>1 / N\<bar> * blas_nrm2 (take (Nnz A) x5)"
    by (simp only: take_map blas_nrm2_scale)
  also have "\<bar>1 / N\<bar> = 1 / N"
    using pos by simp
  finally have "blas_nrm2 (take (Nnz A) (map (\<lambda>v. v / N) x5)) = s"
    using pos by (simp add: bN)
  then have "blas_nrm2 (take (Nnz A) (map (\<lambda>v. v / N) x5))
             / sqrt (real (min (Rows A) (Cols A))) = 1"
    using s0 by (simp add: s_def)
  then show "NormEst Norm2Est kNormFro A1 = Inr 1"
    using m0 by (simp add: A1_def fdiv_def)
qed


lemma zero_new:
  "MatrixSparse_new (CHR ''r'') 2 2 0 [] [0, 0, 0] [] = Inr zero_raw"
  by (simp add: MatrixSparse_new_def ASSERT_def zero_raw_def)

lemma zero_init: "Init b zero_raw = Inr (0, zero_ready)"
  by (cases b)
    (simp_all add: Init_def DEBUG_ASSERT_def ASSERT_def zero_raw_def zero_ready_def
      spmat_memcpy_def convert_half_def count_buckets_def scatter_def scatter_step_def
      upt_conv_Cons Let_def eval_nat_numeral)

lemma zero_normA: "equil_normA zero_ready d1 e1 = 0"
  by (simp add: equil_normA_def zero_ready_def zero_raw_def blas_nrm2_def)

lemma zero_equil:
  "Equil b SinkhornKnopp_ones Norm2Est_unused zero_ready [0, 0] [0, 0] = Inl NonFinite"
proof -
  have "Equil b SinkhornKnopp_ones Norm2Est_unused zero_ready [0, 0] [0, 0]
        = Equil_scaled zero_ready [1, 1] [1, 1]"
    by (subst Equil_unfold)
      (simp_all add: zero_ready_def zero_raw_def SinkhornKnopp_ones_def eval_nat_numeral)
  also have "\<dots> = Inl NonFinite"
    by (simp add: Equil_scaled_def transform_F_def fdiv_def
        blas_nrm2_def zero_ready_def zero_raw_def Let_def)
  finally show ?thesis .
qed

lemma scenario_normA: "equil_normA scenario_ready [1, 1] [1, 1] = sqrt 29 / sqrt 2"
  by (simp add: equil_normA_def scenario_ready_def scenario_raw_def blas_nrm2_def
      MultDiag_def MultRow_def MultCol_def upt_conv_Cons eval_nat_numeral Let_def)


lemma zero_ready_ok: "dual_ok zero_ready"
proof -
  have "wf_input zero_raw"
    by (simp add: wf_input_def wf_half_def zero_raw_def upt_conv_Cons eval_nat_numeral)
  from Init_dual_ok [OF this, of Release] show ?thesis
    by (simp add: zero_init)
qed

text \<open>
  C1. Let \<open>A\<close> be an initialised matrix whose two halves are well formed and hold the
  same entries, let \<open>SinkhornKnopp\<close> return, on the squared magnitudes, vectors \<open>d1\<close> of
  length \<open>m\<close> and \<open>e1\<close> of length \<open>n\<close> with no negative entry, and let the global scalar
  \<open>normA\<close> (the Frobenius norm of \<open>diag(sqrt d1) * A * diag(sqrt e1)\<close> over
  \<open>sqrt (min m n)\<close>) be nonzero. Then \<open>Equil\<close> returns status 0; the reported vectors are
  \<open>d = sqrt d1 / sqrt normA\<close> (length \<open>m\<close>) and \<open>e = sqrt e1 / sqrt normA\<close> (length \<open>n\<close>);
  the stored values are those of \<open>MultDiag\<close> divided by \<open>normA\<close>; every entry
  \<open>(r, c, v)\<close> of either half has become \<open>(r, c, v * (d ! r * e ! c))\<close>, that is
  \<open>A_scaled = diag(d) * A_orig * diag(e)\<close>; the norm of the result, as \<open>NormEst\<close>
  computes it for the norm of the normalisation, is 1; and the two halves still agree.
\<close>

theorem C1_equil_contract:
  assumes "dual_ok A"
    and "SinkhornKnopp (A\<lparr>Data := map (\<lambda>a. a * a) (Data A)\<rparr>) d e = (d1, e1)"
    and "length d1 = Rows A" and "length e1 = Cols A"
    and "\<forall>v\<in>set d1. 0 \<le> v" and "\<forall>v\<in>set e1. 0 \<le> v"
    and "equil_normA A d1 e1 \<noteq> 0"
  shows "case Equil b SinkhornKnopp Norm2Est A d e of
           Inl err \<Rightarrow> False
         | Inr (st, A', d', e') \<Rightarrow>
             st = 0 \<and> length d' = Rows A \<and> length e' = Cols A
             \<and> 0 < equil_normA A d1 e1
             \<and> d' = map (\<lambda>v. sqrt v / sqrt (equil_normA A d1 e1)) d1
             \<and> e' = map (\<lambda>v. sqrt v / sqrt (equil_normA A d1 e1)) e1
             \<and> A' = A\<lparr>Data := map (\<lambda>v. v / equil_normA A d1 e1)
                        (MultDiag (map sqrt d1) (map sqrt e1) (Rows A) (Cols A) (Nnz A)
                           (M_ord A) (Data A) (Ind A) (Ptr A))\<rparr>
             \<and> row_entries A' = map (scale_entry d' e') (row_entries A)
             \<and> col_entries A' = map (scale_entry d' e') (col_entries A)
             \<and> NormEst Norm2Est kNormFro A' = Inr 1
             \<and> dual_ok A'"
  using Equil_result(1) [where SinkhornKnopp = SinkhornKnopp and A = A and d = d and e = e
      and ?d1.0 = d1 and ?e1.0 = e1 and b = b and ?Norm2Est = Norm2Est, OF assms]
    Equil_result(5) [where SinkhornKnopp = SinkhornKnopp and A = A and d = d and e = e
      and ?d1.0 = d1 and ?e1.0 = e1 and ?Norm2Est = Norm2Est, OF assms]
    Equil_result(2-4,6) [where SinkhornKnopp = SinkhornKnopp and A = A and d = d and e = e
      and ?d1.0 = d1 and ?e1.0 = e1, OF assms]
    assms(3,4)
  by simp

theorem C1_equil_contract_witness:
  "dual_ok scenario_ready
   \<and> SinkhornKnopp_ones (scenario_ready\<lparr>Data := map (\<lambda>a. a * a) (Data scenario_ready)\<rparr>)
        [0, 0] [0, 0] = ([1, 1], [1, 1])
   \<and> equil_normA scenario_ready [1, 1] [1, 1] = sqrt 29 / sqrt 2
   \<and> (case Equil Release SinkhornKnopp_ones Norm2Est_unused scenario_ready [0, 0] [0, 0] of
         Inl err \<Rightarrow> False
       | Inr (st, A', d', e') \<Rightarrow>
           st = 0
           \<and> d' = [1 / sqrt (sqrt 29 / sqrt 2), 1 / sqrt (sqrt 29 / sqrt 2)]
           \<and> e' = [1 / sqrt (sqrt 29 / sqrt 2), 1 / sqrt (sqrt 29 / sqrt 2)]
           \<and> row_entries A' = map (scale_entry d' e') [(0, 0, 4), (0, 1, 2), (1, 1, 3)]
           \<and> col_entries A' = map (scale_entry d' e') [(0, 0, 4), (0, 1, 2), (1, 1, 3)]
           \<and> NormEst Norm2Est_unused kNormFro A' = Inr 1
           \<and> dual_ok A')"
proof -
  have sk: "SinkhornKnopp_ones
              (scenario_ready\<lparr>Data := map (\<lambda>a. a * a) (Data scenario_ready)\<rparr>)
              [0, 0] [0, 0] = ([1, 1], [1, 1])"
    by (simp add: SinkhornKnopp_ones_def scenario_dims eval_nat_numeral)
  have nz: "equil_normA scenario_ready [1, 1] [1, 1] \<noteq> 0"
    by (simp add: scenario_normA)
  have r: "case Equil Release SinkhornKnopp_ones Norm2Est_unused scenario_ready [0, 0] [0, 0] of
           Inl err \<Rightarrow> False
         | Inr (st, A', d', e') \<Rightarrow>
             st = 0
             \<and> d' = [1 / sqrt (sqrt 29 / sqrt 2), 1 / sqrt (sqrt 29 / sqrt 2)]
             \<and> e' = [1 / sqrt (sqrt 29 / sqrt 2), 1 / sqrt (sqrt 29 / sqrt 2)]
             \<and> row_entries A' = map (scale_entry d' e') [(0, 0, 4), (0, 1, 2), (1, 1, 3)]
             \<and> col_entries A' = map (scale_entry d' e') [(0, 0, 4), (0, 1, 2), (1, 1, 3)]
             \<and> NormEst Norm2Est_unused kNormFro A' = Inr 1
             \<and> dual_ok A'"
    using C1_equil_contract [where SinkhornKnopp = SinkhornKnopp_ones and A = scenario_ready
        and d = "[0, 0]" and e = "[0, 0]" and ?d1.0 = "[1, 1]" and ?e1.0 = "[1, 1]"
        and b = Release and ?Norm2Est = Norm2Est_unused, OF scenario_ready_ok sk _ _ _ _ nz]
    by (simp add: scenario_dims scenario_normA scenario_row_entries scenario_col_entries
        split: sum.splits prod.splits)
  show ?thesis
    using scenario_ready_ok sk scenario_normA r by (simp only: simp_thms)
qed

text \<open>
  C1 as stated holds for every initialised matrix. For the initialised 2 by 2 matrix
  with no stored entry the global scalar \<open>normA\<close> is 0, whatever \<open>SinkhornKnopp\<close>
  returns: the norm of the result is 0 and cannot be made 1, and the factors \<open>1 / normA\<close>
  and \<open>1 / sqrt normA\<close> have no finite value.
\<close>

theorem C1_zero_matrix_counterexample:
  "MatrixSparse_new (CHR ''r'') 2 2 0 [] [0, 0, 0] [] = Inr zero_raw
   \<and> Init Release zero_raw = Inr (0, zero_ready)
   \<and> dual_ok zero_ready
   \<and> NormEst Norm2Est_unused kNormFro zero_ready = Inr 0
   \<and> equil_normA zero_ready [1, 1] [1, 1] = 0
   \<and> Equil Release SinkhornKnopp_ones Norm2Est_unused zero_ready [0, 0] [0, 0]
       = Inl NonFinite"
proof -
  have "NormEst Norm2Est_unused kNormFro zero_ready = Inr 0"
    by (simp add: zero_ready_def zero_raw_def blas_nrm2_def fdiv_def)
  then show ?thesis
    using zero_new zero_init [of Release] zero_ready_ok zero_normA [of "[1, 1]" "[1, 1]"]
      zero_equil [of Release]
    by (simp only: simp_thms)
qed

subsection \<open>Requests for other norms\<close>

lemma Equil_norms_consts:
  "Equil_norms kNormEquilibrate kNormNormalize b SinkhornKnopp Norm2Est A d e
   = Equil b SinkhornKnopp Norm2Est A d e"
  unfolding Equil_norms_def Equil_def by (rule refl)

lemma NormEst_other:
  "t \<noteq> kNorm2 \<Longrightarrow> t \<noteq> kNormFro \<Longrightarrow> NormEst Norm2Est t A = Inl AssertFailed"
  by (cases t) (simp_all add: ASSERT_def)

lemma Equil_norms_no_result:
  assumes t: "t \<noteq> kNorm2" "t \<noteq> kNormFro" and init: "done_init A"
  shows "case Equil_norms kEq t b SinkhornKnopp Norm2Est A d e of
           Inl err \<Rightarrow> True | Inr r \<Rightarrow> False"
proof (cases "kEq = kNorm2 \<or> kEq = kNormFro")
  case True
  then show ?thesis
    using init
    by (simp add: Equil_norms_def DEBUG_ASSERT_def ASSERT_def Let_def NormEst_other [OF t]
        split: sum.split prod.split)
next
  case False
  then show ?thesis
    using init
    by (simp add: Equil_norms_def DEBUG_ASSERT_def ASSERT_def Let_def NormEst_other [OF t]
        split: sum.split prod.split)
qed


lemma Equil_norms_assert:
  assumes t: "t \<noteq> kNorm2" "t \<noteq> kNormFro" and init: "done_init A"
    and eq: "kEq \<noteq> kNorm2" "kEq \<noteq> kNormFro"
  shows "Equil_norms kEq t b SinkhornKnopp Norm2Est A d e = Inl AssertFailed"
  using init eq
  by (simp add: Equil_norms_def DEBUG_ASSERT_def ASSERT_def Let_def NormEst_other [OF t]
      UnSetSign_def UnSetSignSingle_def list_all_iff split: prod.split)


lemma restore_abs:
  "restore_range IdentityF (sign_bytes v) 0 (length v) (map (\<lambda>a. apply_F AbsF \<bar>a\<bar>) v) = v"
  by (rule nth_equalityI) (auto simp: nth_restore_range bit_sign_bytes)

lemma restore_extract_abs:
  "RestoreWithSign (map abs v) (sign_bytes v) IdentityF = Inr v"
proof -
  let ?x = "map (\<lambda>a. apply_F AbsF \<bar>a\<bar>) v"
  have "RestoreWithSign ?x (sign_bytes v) IdentityF
        = Inr (restore_range IdentityF (sign_bytes v) 0 (length ?x) ?x)"
    by (rule RestoreWithSign_eq) simp
  then have "RestoreWithSign ?x (sign_bytes v) IdentityF = Inr v"
    using restore_abs [of v] by simp
  moreover have "?x = map abs v"
    by simp
  ultimately show ?thesis by simp
qed

lemma Equil_norms_1norm:
  assumes init: "done_init A" and len: "length (Data A) = 2 * Nnz A"
    and eq: "kEq \<noteq> kNorm2" "kEq \<noteq> kNormFro"
  shows "Equil_norms kEq kNormFro b SinkhornKnopp Norm2Est A d e
         = (case SinkhornKnopp (A\<lparr>Data := map abs (Data A)\<rparr>) d e of
              (d1, e1) \<Rightarrow>
                (let x5 = MultDiag d1 e1 (Rows A) (Cols A) (Nnz A) (M_ord A)
                            (Data A) (Ind A) (Ptr A)
                 in case fdiv (blas_nrm2 (take (Nnz A) x5))
                           (sqrt (real (min (Rows A) (Cols A)))) of
                      Inl err \<Rightarrow> Inl err
                    | Inr normA \<Rightarrow>
                        (case fdiv 1 normA of
                           Inl err \<Rightarrow> Inl err
                         | Inr c \<Rightarrow>
                             (case inv_sqrt normA of
                                Inl err \<Rightarrow> Inl err
                              | Inr c2 \<Rightarrow>
                                  Inr (0, A\<lparr>Data := vector_scale x5 (2 * Nnz A) c\<rparr>,
                                       vector_scale d1 (Rows A) c2,
                                       vector_scale e1 (Cols A) c2)))))"
proof -
  define ne where "ne = 2 * Nnz A"
  define nc where "nc = ne div 8"
  let ?X2 = "map abs (Data A)" and ?SB = "sign_bytes (Data A)"
  have c0: "(kEq = kNorm2 \<or> kEq = kNormFro) = False"
    using eq by simp
  obtain X1 S1 where f1: "SetSign (Data A) (replicate ((ne + 7) div 8) 0) nc AbsF = (X1, S1)"
    by (cases "SetSign (Data A) (replicate ((ne + 7) div 8) 0) nc AbsF") auto
  have "ExtractAndTransform (Data A) AbsF = (?X2, ?SB)"
    by (simp add: ExtractAndTransform_eq)
  then have f2: "(if nc * 8 < ne then SetSignSingle X1 (nc * 8) S1 nc (ne - nc * 8) AbsF
                  else (X1, S1)) = (?X2, ?SB)"
    unfolding ExtractAndTransform_def Let_def len ne_def [symmetric] nc_def [symmetric]
    by (simp only: f1 prod.case)
  have "RestoreWithSign ?X2 ?SB IdentityF = Inr (Data A)"
    by (rule restore_extract_abs)
  then have f3: "(case UnSetSign ?X2 ?SB nc IdentityF of
                    Inl err \<Rightarrow> Inl err
                  | Inr x3 \<Rightarrow> if nc * 8 < ne
                      then UnSetSignSingle x3 (nc * 8) ?SB nc (ne - nc * 8) IdentityF
                      else Inr x3) = Inr (Data A)"
    unfolding RestoreWithSign_def Let_def length_map len ne_def [symmetric] nc_def [symmetric] .
  obtain X3 where u: "UnSetSign ?X2 ?SB nc IdentityF = Inr X3"
    and t: "(if nc * 8 < ne then UnSetSignSingle X3 (nc * 8) ?SB nc (ne - nc * 8) IdentityF
             else Inr X3) = Inr (Data A)"
    using f3 by (cases "UnSetSign ?X2 ?SB nc IdentityF") auto
  show ?thesis
    using init
    unfolding Equil_norms_def Let_def ne_def [symmetric] nc_def [symmetric]
      DEBUG_ASSERT_def ASSERT_def c0
    by (simp only: f1 prod.case f2 u t sum.case if_True if_False if_cancel simp_thms
        NormEst.simps)
      (simp split: prod.split)
qed


lemma scenario_sel:
  "Rows scenario_ready = 2" "Cols scenario_ready = 2" "Nnz scenario_ready = 3"
  "M_ord scenario_ready = ROW" "done_init scenario_ready"
  "Data scenario_ready = [4, 2, 3, 4, 2, 3]" "Ind scenario_ready = [0, 1, 1, 0, 0, 1]"
  "Ptr scenario_ready = [0, 2, 3, 0, 1, 3]"
  by (simp_all add: scenario_ready_def scenario_raw_def)

lemma scenario_equil_1norm:
  "Equil_norms kNorm1 kNormFro b SinkhornKnopp_ones Norm2Est_unused scenario_ready [0, 0] [0, 0]
   = Inr (0, scenario_ready\<lparr>Data := map (\<lambda>v. v / (sqrt 29 / sqrt 2)) [4, 2, 3, 4, 2, 3]\<rparr>,
          [1 / sqrt (sqrt 29 / sqrt 2), 1 / sqrt (sqrt 29 / sqrt 2)],
          [1 / sqrt (sqrt 29 / sqrt 2), 1 / sqrt (sqrt 29 / sqrt 2)])"
proof -
  have md: "MultDiag [1, 1] [1, 1] 2 2 3 ROW [4, 2, 3, 4, 2, 3] [0, 1, 1, 0, 0, 1]
              [0, 2, 3, 0, 1, 3] = [4, 2, 3, 4, 2, 3]"
    by (simp add: MultDiag_def MultRow_def MultCol_def upt_conv_Cons eval_nat_numeral)
  have sk: "SinkhornKnopp_ones (scenario_ready\<lparr>Data := x\<rparr>) [0, 0] [0, 0] = ([1, 1], [1, 1])"
    for x
    by (simp add: SinkhornKnopp_ones_def scenario_sel eval_nat_numeral)
  have len: "length (Data scenario_ready) = 2 * Nnz scenario_ready"
    by (simp add: scenario_sel)
  have ne: "kNorm1 \<noteq> kNorm2" "kNorm1 \<noteq> kNormFro"
    by simp_all
  note e = Equil_norms_1norm [where A = scenario_ready and kEq = kNorm1 and b = b
      and SinkhornKnopp = SinkhornKnopp_ones and ?Norm2Est = Norm2Est_unused
      and d = "[0, 0]" and e = "[0, 0]", OF scenario_sel(5) len ne]
  have "Equil_norms kNorm1 kNormFro b SinkhornKnopp_ones Norm2Est_unused scenario_ready
          [0, 0] [0, 0]
        = (case fdiv (blas_nrm2 (take 3 [4, 2, 3, 4, 2, 3])) (sqrt (real (min 2 2))) of
             Inl err \<Rightarrow> Inl err
           | Inr normA \<Rightarrow>
               (case fdiv 1 normA of
                  Inl err \<Rightarrow> Inl err
                | Inr c \<Rightarrow>
                    (case inv_sqrt normA of
                       Inl err \<Rightarrow> Inl err
                     | Inr c2 \<Rightarrow>
                         Inr (0, scenario_ready\<lparr>Data := vector_scale [4, 2, 3, 4, 2, 3] (2 * 3) c\<rparr>,
                              vector_scale [1, 1] 2 c2, vector_scale [1, 1] 2 c2))))"
    unfolding e sk prod.case Let_def scenario_sel md
    by simp
  also have "\<dots> = Inr (0, scenario_ready\<lparr>Data := map (\<lambda>v. v / (sqrt 29 / sqrt 2)) [4, 2, 3, 4, 2, 3]\<rparr>,
          [1 / sqrt (sqrt 29 / sqrt 2), 1 / sqrt (sqrt 29 / sqrt 2)],
          [1 / sqrt (sqrt 29 / sqrt 2), 1 / sqrt (sqrt 29 / sqrt 2)])"
    by (simp add: fdiv_def inv_sqrt_def blas_nrm2_def vector_scale_def eval_nat_numeral
        not_less)
  finally show ?thesis .
qed


text \<open>
  C7. A request for the 1-norm, or for any norm other than the 2-norm and the
  Frobenius norm, as the norm of the normalisation is rejected: the norm estimate
  fires its assertion and returns no estimate, whatever the matrix, and \<open>Equil\<close>
  compiled with such a normalisation norm returns no result on an initialised matrix;
  when the equilibration norm is outside the 2-norm and the Frobenius norm as well, the
  outcome is exactly the failed assertion.
\<close>

theorem C7_normest_rejects:
  assumes "t \<noteq> kNorm2" and "t \<noteq> kNormFro"
  shows "NormEst Norm2Est t A = Inl AssertFailed
         \<and> (done_init A \<longrightarrow>
              (case Equil_norms kEq t b SinkhornKnopp Norm2Est A d e of
                 Inl err \<Rightarrow> True | Inr r \<Rightarrow> False))
         \<and> (done_init A \<and> kEq \<noteq> kNorm2 \<and> kEq \<noteq> kNormFro \<longrightarrow>
              Equil_norms kEq t b SinkhornKnopp Norm2Est A d e = Inl AssertFailed)"
  using NormEst_other [OF assms] Equil_norms_no_result [OF assms] Equil_norms_assert [OF assms]
  by blast

theorem C7_normest_rejects_witness:
  "kNorm1 \<noteq> kNorm2 \<and> kNorm1 \<noteq> kNormFro \<and> done_init scenario_ready
   \<and> NormEst (\<lambda>A. 0) kNorm1 scenario_ready = Inl AssertFailed
   \<and> Equil_norms kNorm1 kNorm1 Release SinkhornKnopp_ones (\<lambda>A. 0) scenario_ready [0, 0] [0, 0]
       = Inl AssertFailed"
  using C7_normest_rejects [where t = kNorm1 and kEq = kNorm1 and A = scenario_ready
      and ?Norm2Est = "\<lambda>A. 0" and SinkhornKnopp = SinkhornKnopp_ones and b = Release
      and d = "[0, 0]" and e = "[0, 0]"]
  by (simp add: scenario_ready_done)

text \<open>
  C7 as stated also rejects a request for the 1-norm as the norm of the equilibration.
  The norm estimate is handed the normalisation norm only, and the branches of \<open>Equil\<close>
  for an equilibration norm other than the 2-norm and the Frobenius norm (absolute
  value on extraction, identity on restoration, no square root of \<open>d\<close> and \<open>e\<close>) reach
  no assertion: compiled with the 1-norm as equilibration norm, \<open>Equil\<close> on the matrix
  of the scenario returns status 0 and the normalised matrix.
\<close>

theorem C7_equilibration_counterexample:
  "Init Release scenario_raw = Inr (0, scenario_ready)
   \<and> Equil_norms kNorm1 kNormFro Release SinkhornKnopp_ones Norm2Est_unused scenario_ready
        [0, 0] [0, 0]
      = Inr (0, scenario_ready\<lparr>Data := map (\<lambda>v. v / (sqrt 29 / sqrt 2)) [4, 2, 3, 4, 2, 3]\<rparr>,
             [1 / sqrt (sqrt 29 / sqrt 2), 1 / sqrt (sqrt 29 / sqrt 2)],
             [1 / sqrt (sqrt 29 / sqrt 2), 1 / sqrt (sqrt 29 / sqrt 2)])"
  using scenario_init [of Release] scenario_equil_1norm [of Release]
  by (simp only: simp_thms)

subsection \<open>The norms fixed at compile time\<close>














end
